theory Spec2Isabelle
  imports Main "HOL-Library.Multiset" "HOL-Library.Char_ord" "HOL-Library.List_Lexorder"
    "HOL-Library.Product_Lexorder"
begin

section \<open>Errors\<close>

text \<open>
  The exceptions the modelled code raises, as values. The classes of
  \<^verbatim>\<open>helpers/errors.py\<close> keep their names; the Python built-ins keep theirs.
  Where the source formats numbers into the message, the constructor carries the
  numbers themselves.
\<close>

datatype error =
    NotImplementedError
  | DataFormatValidationError nat nat
      \<comment> \<open>\<^verbatim>\<open>Row length {len(row)} does not match expected columns {len(cls.columns)}\<close>\<close>
  | TaskInitializationError
      \<comment> \<open>declared in \<^verbatim>\<open>helpers/errors.py\<close>; no code under \<^verbatim>\<open>core/\<close> raises it\<close>
  | ExceedMaxMissingPointsError nat
      \<comment> \<open>\<^verbatim>\<open>Too many missing time points: {len(missing_timestamps)}\<close>\<close>
  | RuntimeError_exhausted
      \<comment> \<open>\<^verbatim>\<open>RuntimeError("Failed to generate task, maximum attempts exhausted")\<close>\<close>
  | RuntimeError_exceeded int int
      \<comment> \<open>\<^verbatim>\<open>RuntimeError(f"Exceeded max attempts ({attempt_times - 1}) for timestamp ({ts}).")\<close>:
          the number printed, then the timestamp\<close>
  | ValueError string
  | TypeError string
  | IndexError
  | KeyError
  | AttributeError
  | ZeroDivisionError
  | OverflowError
  | OSError

section \<open>The mapper: \<^verbatim>\<open>core/mapper.py\<close>\<close>

text \<open>
  \<^verbatim>\<open>BaseMapper\<close> keeps its state in class attributes: the declared \<^verbatim>\<open>columns\<close>
  (\<^verbatim>\<open>None\<close> in the base class) and the flag \<^verbatim>\<open>_validated\<close>, which
  \<^verbatim>\<open>validate\<close> reads and writes. A mapper class is modelled by the record of the two.
\<close>

record mapper =
  validated :: bool
  columns :: "string list option"

text \<open>The \<^verbatim>\<open>for row in data\<close> loop of \<^verbatim>\<open>validate\<close>: the first row of another width raises.\<close>

fun check_rows :: "nat \<Rightarrow> 'a list list \<Rightarrow> error option" where
  "check_rows n [] = None"
| "check_rows n (row # data) =
     (if length row \<noteq> n then Some (DataFormatValidationError (length row) n)
      else check_rows n data)"

text \<open>
  \<^verbatim>\<open>validate(cls, data)\<close>: \<open>Inl\<close> is the exception raised (the class state is then
  unchanged), \<open>Inr\<close> the class state after the call, which returns \<^verbatim>\<open>True\<close>.
\<close>

definition validate :: "mapper \<Rightarrow> 'a list list \<Rightarrow> error + mapper" where
  "validate cls data =
     (if \<not> validated cls then
        (case columns cls of
           None \<Rightarrow> Inl NotImplementedError
         | Some cols \<Rightarrow>
             (case check_rows (length cols) data of
                Some e \<Rightarrow> Inl e
              | None \<Rightarrow> Inr (cls\<lparr>validated := True\<rparr>)))
      else Inr cls)"

definition OHLCVMapper :: mapper where
  "OHLCVMapper = \<lparr>validated = False,
     columns = Some [''time'', ''open'', ''high'', ''low'', ''close'']\<rparr>"

definition FundingRateHistoryMapper :: mapper where
  "FundingRateHistoryMapper = \<lparr>validated = False, columns = Some [''time'', ''rate'']\<rparr>"

section \<open>The persister: \<^verbatim>\<open>core/saver.py\<close> and \<^verbatim>\<open>helpers/utils.py\<close>\<close>

subsection \<open>Rows and the table\<close>

text \<open>
  The saver reads and writes one column of its \<^verbatim>\<open>DataFrame\<close>, the time column
  \<^verbatim>\<open>columns[time_column_index]\<close>; the other cells of a row are carried along. A row of
  the table is therefore its time cell and the rest of the row, of any type \<open>'p\<close>. The
  time cell is an integer (epoch milliseconds) or, after \<^verbatim>\<open>transfer_time\<close>, a string.
  A cell holds a Python integer of any size; where numpy computes on the column the
  values are \<^verbatim>\<open>int64\<close>, and the model wraps or raises as numpy does
  (\<open>astype_int64\<close>, \<open>missing_timestamps\<close>, \<open>np_arange\<close>, \<open>distance_at\<close>). Two computations
  in double precision are taken as exact, which they are below \<open>2^53\<close>: the length of
  \<^verbatim>\<open>np.arange\<close> and the division in \<^verbatim>\<open>timestamp_to_datetime\<close>. The table is the list
  of its rows in positional (\<^verbatim>\<open>iloc\<close>) order; the rows given to \<^verbatim>\<open>save\<close> are taken to
  have the declared width, so that the \<^verbatim>\<open>DataFrame\<close> constructor in
  \<^verbatim>\<open>_append_data\<close> accepts them.
\<close>

datatype tval = TInt int | TStr string

record 'p row =
  rtime :: tval
  rest :: 'p

datatype 'p outfile =
    ChunkFile nat "'p row list"
      \<comment> \<open>\<^verbatim>\<open>{file_count}.csv\<close> and the rows written below the header\<close>
  | MissingTimesFile "(string \<times> int) list"
      \<comment> \<open>\<^verbatim>\<open>missingtimes.txt\<close>: one line \<^verbatim>\<open>{missing_time} ({missing_timestamp})\<close> each\<close>

text \<open>
  The fields of a \<^verbatim>\<open>CSVSaver\<close> that its methods read or write, and \<open>written\<close>, the
  files written so far, in the order of the writes.
\<close>

record 'p saver =
  actions :: "string list"
  timeframe :: "string option"
  df :: "'p row list option"
  missing_times :: "int list option"
  written :: "'p outfile list"

text \<open>
  A method either returns, leaving the saver in a new state (\<open>Inr\<close>), or raises
  (\<open>Inl\<close>); the state at the raise is kept, since a method may have changed the saver
  before it raises.
\<close>

type_synonym 'p outcome = "(error \<times> 'p saver) + 'p saver"

definition and_then :: "'p outcome \<Rightarrow> ('p saver \<Rightarrow> 'p outcome) \<Rightarrow> 'p outcome" where
  "and_then r f = (case r of Inl e \<Rightarrow> Inl e | Inr st \<Rightarrow> f st)"

subsection \<open>What the code takes from outside\<close>

text \<open>
  The values \<^verbatim>\<open>Config(...)\<close> reads from \<^verbatim>\<open>config/config.yml\<close> and the
  library functions whose results the code does not determine are parameters of the
  model:
  \<^item> \<open>py_int\<close>: Python's \<^verbatim>\<open>int(s)\<close> on a string, \<open>None\<close> where it raises
    \<^verbatim>\<open>ValueError\<close>;
  \<^item> \<open>strftime_utc\<close>: \<^verbatim>\<open>datetime.fromtimestamp(t, tz=utc).strftime("%Y-%m-%d %H:%M:%S")\<close>,
    or the exception it raises on a timestamp outside the range of \<^verbatim>\<open>datetime\<close>
    (\<^verbatim>\<open>OSError\<close>, \<^verbatim>\<open>OverflowError\<close> or \<^verbatim>\<open>ValueError\<close>, by platform);
  \<^item> \<open>argsort\<close>: the sorting routine behind \<^verbatim>\<open>DataFrame.sort_values\<close>. \<^verbatim>\<open>_sort\<close>
    passes no \<^verbatim>\<open>kind\<close>, so pandas sorts with numpy's \<^verbatim>\<open>quicksort\<close>, which is not
    stable: the order in which it leaves equal keys depends on the build of numpy and
    on the length of the column. What is known of the routine is that, given the key
    column, it returns the positions of the column in an order that sorts the keys;
  \<^item> \<open>ALLOW_MAX_MISSING_TIMESTAMPS\<close> and \<open>CSV_CHUNK_SIZE\<close>: the integers of the
    configuration file.
\<close>

record env =
  py_int :: "string \<Rightarrow> int option"
  strftime_utc :: "int \<Rightarrow> error + string"
  argsort :: "tval list \<Rightarrow> nat list"
  ALLOW_MAX_MISSING_TIMESTAMPS :: int
  CSV_CHUNK_SIZE :: int

subsection \<open>\<^verbatim>\<open>helpers/utils.py\<close>\<close>

definition TIMEFRAME_MAPPING :: "char \<rightharpoonup> int" where
  "TIMEFRAME_MAPPING = map_of
     [(CHR ''s'', 1), (CHR ''m'', 60), (CHR ''h'', 3600), (CHR ''d'', 86400),
      (CHR ''w'', 604800), (CHR ''M'', 2628000)]"

text \<open>
  \<^verbatim>\<open>timeframe_to_timestamp(timeframe)\<close> with the default \<^verbatim>\<open>unit="ms"\<close>, whose rate is
  1000. \<^verbatim>\<open>timeframe[-1]\<close> raises on the empty string, the dictionary on an unknown unit
  symbol, \<^verbatim>\<open>int\<close> on a count that is no integer literal.
\<close>

definition timeframe_to_timestamp :: "env \<Rightarrow> string \<Rightarrow> error + int" where
  "timeframe_to_timestamp E tf =
     (if tf = [] then Inl IndexError
      else case TIMEFRAME_MAPPING (last tf) of
        None \<Rightarrow> Inl KeyError
      | Some u \<Rightarrow>
          (case py_int E (butlast tf) of
             None \<Rightarrow> Inl (ValueError ''invalid literal for int()'')
           | Some n \<Rightarrow> Inr (u * n * 1000)))"

text \<open>Python's \<^verbatim>\<open>int(x)\<close> on a time cell.\<close>

definition int_of_tval :: "env \<Rightarrow> tval \<Rightarrow> int option" where
  "int_of_tval E v = (case v of TInt i \<Rightarrow> Some i | TStr s \<Rightarrow> py_int E s)"

text \<open>
  \<^verbatim>\<open>timestamp_to_datetime(timestamp)\<close> with the default \<^verbatim>\<open>unit="ms"\<close>:
  \<^verbatim>\<open>int(int(timestamp) / rate)\<close> rounds the quotient toward zero.
\<close>

definition timestamp_to_datetime :: "env \<Rightarrow> tval \<Rightarrow> error + string" where
  "timestamp_to_datetime E v =
     (case int_of_tval E v of
        None \<Rightarrow> Inl (ValueError ''invalid literal for int()'')
      | Some i \<Rightarrow>
          strftime_utc E (if i < 0 then - ((- i) div 1000) else i div 1000))"

subsection \<open>The library calls on the table\<close>

definition is_TInt :: "tval \<Rightarrow> bool" where
  "is_TInt v = (case v of TInt _ \<Rightarrow> True | TStr _ \<Rightarrow> False)"

definition the_TInt :: "tval \<Rightarrow> int" where
  "the_TInt v = (case v of TInt i \<Rightarrow> i | TStr _ \<Rightarrow> 0)"

text \<open>
  The order of the keys of one column: integers by value, strings by code point. On a
  column of integers with strings Python raises \<^verbatim>\<open>TypeError\<close> at the first comparison
  of one with the other, so the order between the two kinds is never used.
\<close>

definition tkey :: "tval \<Rightarrow> bool \<times> int \<times> string" where
  "tkey v = (case v of TInt i \<Rightarrow> (False, i, []) | TStr s \<Rightarrow> (True, 0, s))"

text \<open>
  What numpy promises of a sorting routine: the positions it returns are a permutation
  of the positions of the column, and the keys are ascending along them.
\<close>

definition sorts_keys :: "(tval list \<Rightarrow> nat list) \<Rightarrow> bool" where
  "sorts_keys routine \<longleftrightarrow>
     (\<forall>items. mset (routine items) = mset [0 ..< length items] \<and>
              sorted (map (\<lambda>i. tkey (items ! i)) (routine items)))"

text \<open>
  \<^verbatim>\<open>DataFrame.sort_values(by=time, ascending=..., inplace=True)\<close>: pandas'
  \<^verbatim>\<open>nargsort\<close> calls the sorting routine on the key column, for the descending order on
  the reversed column, whose positions it reverses again, and the rows are taken in
  the order of the positions.
\<close>

definition nargsort :: "env \<Rightarrow> bool \<Rightarrow> tval list \<Rightarrow> nat list" where
  "nargsort E ascending items =
     (if ascending then argsort E items
      else rev (map (\<lambda>j. length items - 1 - j) (argsort E (rev items))))"

definition sort_values :: "env \<Rightarrow> bool \<Rightarrow> 'p row list \<Rightarrow> error + 'p row list" where
  "sort_values E ascending rows =
     (if list_all (\<lambda>r. is_TInt (rtime r)) rows \<or> list_all (\<lambda>r. \<not> is_TInt (rtime r)) rows
      then Inr (map (\<lambda>i. rows ! i) (nargsort E ascending (map rtime rows)))
      else Inl (TypeError ''not supported between instances of str and int''))"

text \<open>
  \<^verbatim>\<open>DataFrame.drop_duplicates(subset=[time], keep="first", inplace=True)\<close>: a row
  stays when no earlier row has its time value. \<open>seen\<close> are the time values met so far.
\<close>

fun keep_first :: "tval list \<Rightarrow> 'p row list \<Rightarrow> 'p row list" where
  "keep_first seen [] = []"
| "keep_first seen (r # rs) =
     (if rtime r \<in> set seen then keep_first seen rs
      else r # keep_first (rtime r # seen) rs)"

text \<open>The values of \<^verbatim>\<open>int64\<close>, and the value an integer wraps to.\<close>

definition in_int64 :: "int \<Rightarrow> bool" where
  "in_int64 x \<longleftrightarrow> - (2 ^ 63) \<le> x \<and> x < 2 ^ 63"

definition wrap_int64 :: "int \<Rightarrow> int" where
  "wrap_int64 x = (x + 2 ^ 63) mod 2 ^ 64 - 2 ^ 63"

text \<open>
  The dtype of the time column, as the \<^verbatim>\<open>DataFrame\<close> constructor infers it from the
  cells: \<^verbatim>\<open>int64\<close> for Python integers that all fit, \<^verbatim>\<open>uint64\<close> for integers of
  which none is negative and all are below \<open>2^64\<close>, \<^verbatim>\<open>object\<close> for any other column.
\<close>

datatype dtype = Int64 | UInt64 | Object

definition column_dtype :: "tval list \<Rightarrow> dtype" where
  "column_dtype vs =
     (if list_all (\<lambda>v. is_TInt v \<and> in_int64 (the_TInt v)) vs then Int64
      else if list_all (\<lambda>v. is_TInt v \<and> 0 \<le> the_TInt v \<and> the_TInt v < 2 ^ 64) vs then UInt64
      else Object)"

text \<open>
  \<^verbatim>\<open>Series.astype(np.int64)\<close> on the time column. An \<^verbatim>\<open>int64\<close> column stays as it is;
  in a \<^verbatim>\<open>uint64\<close> column the values from \<open>2^63\<close> on wrap; a column of objects is
  converted cell by cell, and the first cell that is no integer literal, or whose
  integer does not fit, raises.
\<close>

fun convert_objects :: "env \<Rightarrow> tval list \<Rightarrow> error + int list" where
  "convert_objects E [] = Inr []"
| "convert_objects E (v # vs) =
     (case int_of_tval E v of
        None \<Rightarrow> Inl (ValueError ''invalid literal for int()'')
      | Some i \<Rightarrow>
          if in_int64 i then
            (case convert_objects E vs of Inl e \<Rightarrow> Inl e | Inr is \<Rightarrow> Inr (i # is))
          else Inl OverflowError)"

definition astype_int64 :: "env \<Rightarrow> tval list \<Rightarrow> error + int list" where
  "astype_int64 E vs =
     (case column_dtype vs of
        Int64 \<Rightarrow> Inr (map the_TInt vs)
      | UInt64 \<Rightarrow> Inr (map (\<lambda>v. wrap_int64 (the_TInt v)) vs)
      | Object \<Rightarrow> convert_objects E vs)"

text \<open>
  \<^verbatim>\<open>np.arange(start, stop, step)\<close> on \<^verbatim>\<open>int64\<close> values. The length is
  \<open>\<lceil>(stop - start) / step\<rceil>\<close>, where \<^verbatim>\<open>stop - start\<close> is an \<^verbatim>\<open>int64\<close> subtraction, and
  the array is empty when the length is not positive; its values are \<open>start + i * step\<close>
  in \<^verbatim>\<open>int64\<close>. With a zero step the quotient is infinite, or not a number when
  \<^verbatim>\<open>stop - start\<close> is zero too, and \<^verbatim>\<open>np.arange\<close> raises \<^verbatim>\<open>ValueError\<close>.
\<close>

definition np_arange :: "int \<Rightarrow> int \<Rightarrow> int \<Rightarrow> error + int list" where
  "np_arange start stop step =
     (if step = 0 then
        Inl (ValueError (if wrap_int64 (stop - start) = 0 then ''arange: cannot compute length''
                         else ''Maximum allowed size exceeded''))
      else Inr (map (\<lambda>i. wrap_int64 (start + int i * step))
                  [0 ..< nat (- ((- wrap_int64 (stop - start)) div step))]))"

text \<open>
  \<^verbatim>\<open>np.searchsorted(arr, key)\<close> (\<^verbatim>\<open>side="left"\<close>) is numpy's bisection: it halves
  \<open>[lo, hi)\<close>, going right where the middle element is less than the key. Comparing a
  string cell with the integer key raises.
\<close>

function bisect_left :: "tval list \<Rightarrow> int \<Rightarrow> nat \<Rightarrow> nat \<Rightarrow> error + nat" where
  "bisect_left arr key lo hi =
     (if lo < hi then
        (let mid = lo + (hi - lo) div 2 in
         case arr ! mid of
           TStr _ \<Rightarrow> Inl (TypeError ''not supported between instances of str and int'')
         | TInt v \<Rightarrow>
             (if v < key then bisect_left arr key (mid + 1) hi
              else bisect_left arr key lo mid))
      else Inr lo)"
  by pat_completeness auto
termination
  by (relation "measure (\<lambda>(arr, key, lo, hi). hi - lo)") auto

declare bisect_left.simps [simp del]

definition searchsorted :: "tval list \<Rightarrow> int \<Rightarrow> error + nat" where
  "searchsorted arr key = bisect_left arr key 0 (length arr)"

subsection \<open>The actions of \<^verbatim>\<open>CSVSaver\<close>\<close>

text \<open>
  \<^verbatim>\<open>_sort\<close>, \<^verbatim>\<open>_drop_duplicates\<close>, \<^verbatim>\<open>_drop_last\<close> and \<^verbatim>\<open>_transfer_time\<close>. Before
  the first \<^verbatim>\<open>_append_data\<close> the table is \<^verbatim>\<open>None\<close>, and reading an attribute of it
  raises.
\<close>

definition CSVSaver_sort :: "env \<Rightarrow> bool \<Rightarrow> 'p saver \<Rightarrow> 'p outcome" where
  "CSVSaver_sort E ascending st =
     (case df st of
        None \<Rightarrow> Inl (AttributeError, st)
      | Some rows \<Rightarrow>
          (case sort_values E ascending rows of
             Inl e \<Rightarrow> Inl (e, st)
           | Inr sorted_rows \<Rightarrow> Inr (st\<lparr>df := Some sorted_rows\<rparr>)))"

definition CSVSaver_drop_duplicates :: "'p saver \<Rightarrow> 'p outcome" where
  "CSVSaver_drop_duplicates st =
     (case df st of
        None \<Rightarrow> Inl (AttributeError, st)
      | Some rows \<Rightarrow> Inr (st\<lparr>df := Some (keep_first [] rows)\<rparr>))"

definition CSVSaver_drop_last :: "'p saver \<Rightarrow> 'p outcome" where
  "CSVSaver_drop_last st =
     (case df st of
        None \<Rightarrow> Inl (AttributeError, st)
      | Some rows \<Rightarrow> Inr (st\<lparr>df := Some (butlast rows)\<rparr>))"

text \<open>\<^verbatim>\<open>Series.apply(timestamp_to_datetime)\<close>: row by row; nothing is assigned if a call raises.\<close>

fun apply_timestamp_to_datetime :: "env \<Rightarrow> 'p row list \<Rightarrow> error + 'p row list" where
  "apply_timestamp_to_datetime E [] = Inr []"
| "apply_timestamp_to_datetime E (r # rs) =
     (case timestamp_to_datetime E (rtime r) of
        Inl e \<Rightarrow> Inl e
      | Inr s \<Rightarrow>
          (case apply_timestamp_to_datetime E rs of
             Inl e \<Rightarrow> Inl e
           | Inr rs' \<Rightarrow> Inr (r\<lparr>rtime := TStr s\<rparr> # rs')))"

definition CSVSaver_transfer_time :: "env \<Rightarrow> 'p saver \<Rightarrow> 'p outcome" where
  "CSVSaver_transfer_time E st =
     (case df st of
        None \<Rightarrow> Inl (TypeError ''NoneType object is not subscriptable'', st)
      | Some rows \<Rightarrow>
          (case apply_timestamp_to_datetime E rows of
             Inl e \<Rightarrow> Inl (e, st)
           | Inr rows' \<Rightarrow> Inr (st\<lparr>df := Some rows'\<rparr>)))"

text \<open>
  Lines 138 to 146 of \<^verbatim>\<open>_initialize_missing_times\<close>, on the time column \<open>ts\<close> after its
  conversion to \<^verbatim>\<open>int64\<close> and the step \<open>delta_timestamp\<close>, a Python integer: the expected
  timestamps are \<^verbatim>\<open>np.arange(min_time, max_time + delta_timestamp, delta_timestamp)\<close>,
  the missing ones those that are not in the column. \<^verbatim>\<open>max_time + delta_timestamp\<close> is
  an \<^verbatim>\<open>int64\<close> addition: it wraps, and a step that is no \<^verbatim>\<open>int64\<close> raises
  \<^verbatim>\<open>OverflowError\<close> (NumPy 2; NumPy 1 computes such a sum in double precision). The
  result is the set difference as Python's \<^verbatim>\<open>sorted\<close> lists it.
\<close>

definition missing_timestamps :: "int \<Rightarrow> int list \<Rightarrow> error + int list" where
  "missing_timestamps delta_timestamp ts =
     (let min_time = Min (set ts); max_time = Max (set ts) in
      if \<not> in_int64 delta_timestamp then Inl OverflowError
      else case np_arange min_time (wrap_int64 (max_time + delta_timestamp)) delta_timestamp of
        Inl e \<Rightarrow> Inl e
      | Inr expected_timestamps \<Rightarrow>
          Inr (sort (remdups (filter (\<lambda>t. t \<notin> set ts) expected_timestamps))))"

text \<open>
  \<^verbatim>\<open>_initialize_missing_times\<close> returns \<^verbatim>\<open>True\<close> or \<^verbatim>\<open>False\<close> and may have rewritten
  the time column (\<^verbatim>\<open>astype\<close>) before it raises.
\<close>

definition set_times :: "'p row list \<Rightarrow> int list \<Rightarrow> 'p row list" where
  "set_times rows ts = map (\<lambda>(r, t). r\<lparr>rtime := TInt t\<rparr>) (zip rows ts)"

definition initialize_missing_times ::
  "env \<Rightarrow> 'p saver \<Rightarrow> (error \<times> 'p saver) + (bool \<times> 'p saver)" where
  "initialize_missing_times E st =
     (if missing_times st \<noteq> None then Inr (True, st)
      else case timeframe st of
        None \<Rightarrow> Inl (ValueError ''Missing timeframe, cannot retrieve missing times'', st)
      | Some tf \<Rightarrow>
          (case df st of
             None \<Rightarrow> Inl (AttributeError, st)
           | Some rows \<Rightarrow>
               if rows = [] then Inr (False, st)
               else case astype_int64 E (map rtime rows) of
                 Inl e \<Rightarrow> Inl (e, st)
               | Inr ts \<Rightarrow>
                   (let st1 = st\<lparr>df := Some (set_times rows ts)\<rparr> in
                    case timeframe_to_timestamp E tf of
                      Inl e \<Rightarrow> Inl (e, st1)
                    | Inr delta_timestamp \<Rightarrow>
                        (case missing_timestamps delta_timestamp ts of
                           Inl e \<Rightarrow> Inl (e, st1)
                         | Inr missing \<Rightarrow>
                             if missing = [] then Inr (True, st1\<lparr>missing_times := Some []\<rparr>)
                             else if int (length missing) > ALLOW_MAX_MISSING_TIMESTAMPS E
                               then Inl (ExceedMaxMissingPointsError (length missing), st1)
                             else Inr (True, st1\<lparr>missing_times := Some missing\<rparr>)))))"

text \<open>\<^verbatim>\<open>_append_data\<close>: the new rows become the table, or are concatenated to it.\<close>

definition append_data :: "'p saver \<Rightarrow> 'p row list \<Rightarrow> 'p saver" where
  "append_data st data_list =
     st\<lparr>df := Some (case df st of None \<Rightarrow> data_list | Some rows \<Rightarrow> rows @ data_list)\<rparr>"

text \<open>
  The body of the loop of \<^verbatim>\<open>_fix_data_integrity\<close> for one missing timestamp. The
  candidates are the neighbour before the insertion position, if any, then the one at
  it, if any, each with its distance; Python's \<^verbatim>\<open>min\<close> keeps the first of the
  candidates of least distance and raises on an empty list. The missing timestamps are
  \<^verbatim>\<open>int64\<close> values (only \<^verbatim>\<open>_initialize_missing_times\<close> assigns the list), so in an
  \<^verbatim>\<open>int64\<close> column \<^verbatim>\<open>abs(arr[i] - missing_ts)\<close> is computed in \<^verbatim>\<open>int64\<close> and wraps.
  In a \<^verbatim>\<open>uint64\<close> column numpy computes the difference in double precision (taken as
  exact). In a column of objects the cell is a Python integer, which NumPy 2 converts
  to \<^verbatim>\<open>int64\<close>, raising \<^verbatim>\<open>OverflowError\<close> if it does not fit, or a string.
\<close>

definition distance_at :: "tval list \<Rightarrow> nat \<Rightarrow> int \<Rightarrow> error + (int \<times> nat) list" where
  "distance_at arr i missing_ts =
     (case arr ! i of
        TInt v \<Rightarrow>
          (case column_dtype arr of
             Int64 \<Rightarrow> Inr [(wrap_int64 \<bar>wrap_int64 (v - missing_ts)\<bar>, i)]
           | UInt64 \<Rightarrow> Inr [(\<bar>v - missing_ts\<bar>, i)]
           | Object \<Rightarrow>
               if in_int64 v then Inr [(wrap_int64 \<bar>wrap_int64 (v - missing_ts)\<bar>, i)]
               else Inl OverflowError)
      | TStr _ \<Rightarrow> Inl (TypeError ''unsupported operand types for -: str and int''))"

definition candidates_of :: "tval list \<Rightarrow> nat \<Rightarrow> int \<Rightarrow> error + (int \<times> nat) list" where
  "candidates_of arr insert_pos missing_ts =
     (case (if insert_pos > 0 then distance_at arr (insert_pos - 1) missing_ts else Inr []) of
        Inl e \<Rightarrow> Inl e
      | Inr before \<Rightarrow>
          (case (if insert_pos < length arr then distance_at arr insert_pos missing_ts
                 else Inr []) of
             Inl e \<Rightarrow> Inl e
           | Inr after \<Rightarrow> Inr (before @ after)))"

definition py_min_by_fst :: "(int \<times> nat) list \<Rightarrow> error + (int \<times> nat)" where
  "py_min_by_fst cs =
     (case cs of
        [] \<Rightarrow> Inl (ValueError ''min() arg is an empty sequence'')
      | c # cs' \<Rightarrow> Inr (foldl (\<lambda>best x. if fst x < fst best then x else best) c cs'))"

definition closest_data :: "'p row list \<Rightarrow> int \<Rightarrow> error + 'p row" where
  "closest_data rows missing_ts =
     (let arr = map rtime rows in
      case searchsorted arr missing_ts of
        Inl e \<Rightarrow> Inl e
      | Inr insert_pos \<Rightarrow>
          (case candidates_of arr insert_pos missing_ts of
             Inl e \<Rightarrow> Inl e
           | Inr candidates \<Rightarrow>
               (case py_min_by_fst candidates of
                  Inl e \<Rightarrow> Inl e
                | Inr closest \<Rightarrow> Inr ((rows ! snd closest)\<lparr>rtime := TInt missing_ts\<rparr>))))"

fun new_data :: "'p row list \<Rightarrow> int list \<Rightarrow> error + 'p row list" where
  "new_data rows [] = Inr []"
| "new_data rows (missing_ts # later) =
     (case closest_data rows missing_ts of
        Inl e \<Rightarrow> Inl e
      | Inr r \<Rightarrow> (case new_data rows later of Inl e \<Rightarrow> Inl e | Inr rs \<Rightarrow> Inr (r # rs)))"

definition CSVSaver_fix_data_integrity :: "env \<Rightarrow> 'p saver \<Rightarrow> 'p outcome" where
  "CSVSaver_fix_data_integrity E st =
     (case initialize_missing_times E st of
        Inl e \<Rightarrow> Inl e
      | Inr (ok, st1) \<Rightarrow>
          if \<not> ok then Inr st1
          else case missing_times st1 of
            None \<Rightarrow> Inl (TypeError ''object of type NoneType has no len()'', st1)
          | Some missing \<Rightarrow>
              if length missing = 0 then Inr st1
              else case df st1 of
                None \<Rightarrow> Inl (TypeError ''NoneType object is not subscriptable'', st1)
              | Some rows \<Rightarrow>
                  (case new_data rows missing of
                     Inl e \<Rightarrow> Inl (e, st1)
                   | Inr synthesized \<Rightarrow>
                       if synthesized \<noteq> [] then CSVSaver_sort E True (append_data st1 synthesized)
                       else Inr st1))"

text \<open>
  \<^verbatim>\<open>_save_missing_times\<close> opens \<^verbatim>\<open>missingtimes.txt\<close> for writing and writes a line for
  each missing timestamp; if formatting one raises, the file keeps the lines before it.
\<close>

fun missing_lines :: "env \<Rightarrow> int list \<Rightarrow> (string \<times> int) list \<times> error option" where
  "missing_lines E [] = ([], None)"
| "missing_lines E (t # ts) =
     (case timestamp_to_datetime E (TInt t) of
        Inl e \<Rightarrow> ([], Some e)
      | Inr s \<Rightarrow> (case missing_lines E ts of (ls, r) \<Rightarrow> ((s, t) # ls, r)))"

definition CSVSaver_save_missing_times :: "env \<Rightarrow> 'p saver \<Rightarrow> 'p outcome" where
  "CSVSaver_save_missing_times E st =
     (case initialize_missing_times E st of
        Inl e \<Rightarrow> Inl e
      | Inr (ok, st1) \<Rightarrow>
          if \<not> ok then Inr st1
          else case missing_times st1 of
            None \<Rightarrow> Inl (TypeError ''object of type NoneType has no len()'', st1)
          | Some missing \<Rightarrow>
              if length missing = 0 then Inr st1
              else case missing_lines E missing of
                (ls, r) \<Rightarrow>
                  (let st2 = st1\<lparr>written := written st1 @ [MissingTimesFile ls]\<rparr> in
                   case r of None \<Rightarrow> Inr st2 | Some e \<Rightarrow> Inl (e, st2)))"

text \<open>
  \<^verbatim>\<open>_save_file\<close>: \<^verbatim>\<open>for i in range(0, len(df), chunk_size)\<close> writes
  \<^verbatim>\<open>df.iloc[i : i + chunk_size]\<close> to the file numbered \<^verbatim>\<open>file_count\<close>.
\<close>

function write_chunks :: "nat \<Rightarrow> nat \<Rightarrow> 'p row list \<Rightarrow> 'p outfile list" where
  "write_chunks chunk_size file_count rows =
     (if rows = [] \<or> chunk_size = 0 then []
      else ChunkFile file_count (take chunk_size rows)
             # write_chunks chunk_size (file_count + 1) (drop chunk_size rows))"
  by pat_completeness auto
termination
  by (relation "measure (\<lambda>(chunk_size, file_count, rows). length rows)") auto

declare write_chunks.simps [simp del]

definition save_file :: "env \<Rightarrow> 'p saver \<Rightarrow> 'p outcome" where
  "save_file E st =
     (case df st of
        None \<Rightarrow> Inl (TypeError ''object of type NoneType has no len()'', st)
      | Some rows \<Rightarrow>
          if CSV_CHUNK_SIZE E = 0 then Inl (ValueError ''range() arg 3 must not be zero'', st)
          else if CSV_CHUNK_SIZE E < 0 then Inr st
          else Inr (st\<lparr>written := written st @ write_chunks (nat (CSV_CHUNK_SIZE E)) 0 rows\<rparr>))"

text \<open>
  The table \<^verbatim>\<open>_actions\<close> that \<^verbatim>\<open>__init__\<close> collects from the methods decorated with
  \<^verbatim>\<open>@_id\<close>, and \<^verbatim>\<open>save\<close>. An action is called without arguments, so \<^verbatim>\<open>_sort\<close> sorts
  ascending. \<open>run_actions\<close> is the loop of \<^verbatim>\<open>save\<close>; beside the outcome it returns the
  warnings \<^verbatim>\<open>Cannot find action: {action}\<close> the loop has logged (other logging is not
  modelled).
\<close>

definition CSVSaver_actions :: "env \<Rightarrow> string \<rightharpoonup> ('p saver \<Rightarrow> 'p outcome)" where
  "CSVSaver_actions E = map_of
     [(''sort'', CSVSaver_sort E True),
      (''drop_duplicates'', CSVSaver_drop_duplicates),
      (''drop_last'', CSVSaver_drop_last),
      (''transfer_time'', CSVSaver_transfer_time E),
      (''fix_integrity'', CSVSaver_fix_data_integrity E),
      (''save_missing_times'', CSVSaver_save_missing_times E)]"

fun run_actions :: "env \<Rightarrow> string list \<Rightarrow> 'p saver \<Rightarrow> 'p outcome \<times> string list" where
  "run_actions E [] st = (Inr st, [])"
| "run_actions E (action # later) st =
     (case CSVSaver_actions E action of
        Some func \<Rightarrow>
          (case func st of
             Inl e \<Rightarrow> (Inl e, [])
           | Inr st' \<Rightarrow> run_actions E later st')
      | None \<Rightarrow>
          (case run_actions E later st of
             (r, ws) \<Rightarrow> (r, (''Cannot find action: '' @ action) # ws)))"

definition save :: "env \<Rightarrow> 'p saver \<Rightarrow> 'p row list \<Rightarrow> 'p outcome \<times> string list" where
  "save E st processed_data =
     (case run_actions E (actions st) (append_data st processed_data) of
        (r, ws) \<Rightarrow> (and_then r (save_file E), ws))"

text \<open>The tables in which no two rows have the same time value (a table there is none of has no rows).\<close>

definition distinct_times :: "'p saver \<Rightarrow> bool" where
  "distinct_times st = (case df st of None \<Rightarrow> True | Some rows \<Rightarrow> distinct (map rtime rows))"

text \<open>The action names the decorated methods of \<^verbatim>\<open>CSVSaver\<close> register.\<close>

definition registered_ids :: "string list" where
  "registered_ids =
     [''sort'', ''drop_duplicates'', ''drop_last'', ''transfer_time'', ''save_missing_times'',
      ''fix_integrity'']"

text \<open>Values for the parameters, used where a property is shown on an example.\<close>

fun digits_value :: "string \<Rightarrow> nat \<Rightarrow> nat option" where
  "digits_value [] acc = Some acc"
| "digits_value (c # cs) acc =
     (if CHR ''0'' \<le> c \<and> c \<le> CHR ''9''
      then digits_value cs (10 * acc + (of_char c - 48))
      else None)"

definition decimal_int :: "string \<Rightarrow> int option" where
  "decimal_int s = (if s = [] then None else map_option int (digits_value s 0))"

text \<open>
  Two sorting routines: one that keeps rows of equal key in their order, as a stable
  sort does, and one that leaves them in the reverse of their order, as a sort that is
  not stable may.
\<close>

definition stable_argsort :: "tval list \<Rightarrow> nat list" where
  "stable_argsort items = sort_key (\<lambda>i. tkey (items ! i)) [0 ..< length items]"

definition reversing_argsort :: "tval list \<Rightarrow> nat list" where
  "reversing_argsort items = sort_key (\<lambda>i. tkey (items ! i)) (rev [0 ..< length items])"

text \<open>
  The example environment reads decimal literals, sorts stably, and formats no
  timestamp: its \<open>strftime_utc\<close> answers as \<^verbatim>\<open>datetime\<close> does on a timestamp out of
  its range (none of the examples formats one).
\<close>

definition example_env :: env where
  "example_env = \<lparr>py_int = decimal_int, strftime_utc = (\<lambda>t. Inl OSError),
     argsort = stable_argsort, ALLOW_MAX_MISSING_TIMESTAMPS = 3, CSV_CHUNK_SIZE = 2\<rparr>"

definition unstable_env :: env where
  "unstable_env = example_env\<lparr>argsort := reversing_argsort\<rparr>"

definition new_saver :: "string list \<Rightarrow> string option \<Rightarrow> 'p saver" where
  "new_saver acts tf =
     \<lparr>actions = acts, timeframe = tf, df = None, missing_times = None, written = []\<rparr>"

definition rows_at :: "int list \<Rightarrow> unit row list" where
  "rows_at ts = map (\<lambda>t. \<lparr>rtime = TInt t, rest = ()\<rparr>) ts"

definition table_saver :: "string list \<Rightarrow> string option \<Rightarrow> int list \<Rightarrow> unit saver" where
  "table_saver acts tf ts = (new_saver acts tf)\<lparr>df := Some (rows_at ts)\<rparr>"

section \<open>The planner: \<^verbatim>\<open>core/task.py\<close>\<close>

text \<open>
  A page of data is a list of rows or \<^verbatim>\<open>None\<close>; the fetch wrapper of \<^verbatim>\<open>wrapper.py\<close>
  returns \<^verbatim>\<open>(None, DataFlag.ERROR)\<close> when the exchange call raises. The planner reads
  the first cell of the first and of the last row of a page, so a row is the list of
  its cells, each an integer or a string (other cells are not modelled).
\<close>

datatype DataFlag = NORMAL | ERROR

type_synonym page = "tval list list option"

text \<open>
  The fetch function is called once in every round of the loop, always with
  \<^verbatim>\<open>since=test_since\<close>; what it answers may change from call to call, so it takes the
  number of the call. So does the mapping function, if one is given: it is a closure
  over a mapper class whose state changes.
\<close>

type_synonym fetch_func = "nat \<Rightarrow> int \<Rightarrow> page \<times> DataFlag"

type_synonym map_func = "nat \<Rightarrow> page \<Rightarrow> error + page"

record planner_config =
  MAX_ATTEMPT_TIMES :: int
  LOCAL_THREADS_RATIO :: int

record task =
  timestamp_list :: "int list option"
  online_worker_count :: "int option"
  local_worker_count :: "int option"

text \<open>\<^verbatim>\<open>Task.__init__\<close> leaves the three fields \<^verbatim>\<open>None\<close>.\<close>

definition new_task :: task where
  "new_task = \<lparr>timestamp_list = None, online_worker_count = None, local_worker_count = None\<rparr>"

text \<open>\<^verbatim>\<open>row[0]\<close> and \<^verbatim>\<open>abs(a - b)\<close> on cells, and \<^verbatim>\<open>list(range(start, stop, step))\<close>.\<close>

definition first_cell :: "tval list \<Rightarrow> error + tval" where
  "first_cell row = (case row of [] \<Rightarrow> Inl IndexError | c # _ \<Rightarrow> Inr c)"

definition abs_difference :: "tval \<Rightarrow> tval \<Rightarrow> error + int" where
  "abs_difference a b =
     (case (a, b) of
        (TInt x, TInt y) \<Rightarrow> Inr \<bar>x - y\<bar>
      | _ \<Rightarrow> Inl (TypeError ''unsupported operand types for -''))"

definition py_range :: "int \<Rightarrow> int \<Rightarrow> int \<Rightarrow> error + int list" where
  "py_range start stop step =
     (if step = 0 then Inl (ValueError ''range() arg 3 must not be zero'')
      else Inr (map (\<lambda>i. start + int i * step) [0 ..< nat (- ((- (stop - start)) div step))]))"

text \<open>
  The branch of \<^verbatim>\<open>initialize_func\<close> taken on a page that is \<^verbatim>\<open>NORMAL\<close> and not
  empty: \<^verbatim>\<open>delta\<close>, the new \<^verbatim>\<open>since\<close>, the timestamp list, and then the three
  assignments to the task.
\<close>

definition plan_from :: "tval list list \<Rightarrow> int \<Rightarrow> int \<Rightarrow> int \<Rightarrow> task \<Rightarrow> error + task" where
  "plan_from test_data until online_workers local_workers self =
     (case first_cell (hd test_data) of
        Inl e \<Rightarrow> Inl e
      | Inr a \<Rightarrow>
          (case first_cell (last test_data) of
             Inl e \<Rightarrow> Inl e
           | Inr b \<Rightarrow>
               (case abs_difference a b of
                  Inl e \<Rightarrow> Inl e
                | Inr delta \<Rightarrow>
                    (case py_range (the_TInt a) until delta of
                       Inl e \<Rightarrow> Inl e
                     | Inr timestamps \<Rightarrow>
                         Inr (self\<lparr>timestamp_list := Some timestamps,
                                   online_worker_count := Some online_workers,
                                   local_worker_count := Some local_workers\<rparr>)))))"

text \<open>
  One round of the \<^verbatim>\<open>while attempt_times\<close> loop, the \<open>k\<close>-th: the fetch, the mapping
  (before the flag is looked at), and then the plan, an exception, or another round.
\<close>

datatype round = Retry | Raise error | Return task

definition probe_round ::
  "fetch_func \<Rightarrow> map_func option \<Rightarrow> int \<Rightarrow> int \<Rightarrow> int \<Rightarrow> int \<Rightarrow> task \<Rightarrow> nat \<Rightarrow> round" where
  "probe_round fetch mapf test_since until online_workers local_workers self k =
     (case fetch k test_since of
        (test_raw_data, flag) \<Rightarrow>
          (case (case mapf of Some f \<Rightarrow> f k test_raw_data | None \<Rightarrow> Inr test_raw_data) of
             Inl e \<Rightarrow> Raise e
           | Inr test_data \<Rightarrow>
               if flag = NORMAL then
                 (case test_data of
                    None \<Rightarrow> Raise (TypeError ''object of type NoneType has no len()'')
                  | Some rows \<Rightarrow>
                      if length rows > 0 then
                        (case plan_from rows until online_workers local_workers self of
                           Inl e \<Rightarrow> Raise e
                         | Inr t \<Rightarrow> Return t)
                      else Retry)
               else Retry))"

text \<open>
  The loop runs while \<^verbatim>\<open>attempt_times\<close> is not zero and counts down by one: from a
  negative bound it ends only with a page that leaves it. Not returning is \<open>None\<close>. An
  exception leaves the task as \<^verbatim>\<open>__init__\<close> made it, since the assignments to its fields
  are the last statements before \<^verbatim>\<open>return self\<close>.
\<close>

partial_function (option) probe_loop ::
  "fetch_func \<Rightarrow> map_func option \<Rightarrow> int \<Rightarrow> int \<Rightarrow> int \<Rightarrow> int \<Rightarrow> task \<Rightarrow> int \<Rightarrow> nat
     \<Rightarrow> ((error \<times> task) + task) option" where
  "probe_loop fetch mapf test_since until online_workers local_workers self attempt_times k =
     (if attempt_times = 0 then Some (Inl (RuntimeError_exhausted, self))
      else case probe_round fetch mapf test_since until online_workers local_workers self k of
        Return t \<Rightarrow> Some (Inr t)
      | Raise e \<Rightarrow> Some (Inl (e, self))
      | Retry \<Rightarrow>
          probe_loop fetch mapf test_since until online_workers local_workers self
            (attempt_times - 1) (k + 1))"

text \<open>
  \<^verbatim>\<open>Task.initialize\<close>, which calls \<^verbatim>\<open>initialize_func\<close>: the worker counts come first,
  and \<^verbatim>\<open>thread_count // Config("LOCAL_THREADS_RATIO")\<close> raises on a zero ratio.
\<close>

definition initialize ::
  "planner_config \<Rightarrow> int \<Rightarrow> int \<Rightarrow> int \<Rightarrow> fetch_func \<Rightarrow> map_func option \<Rightarrow> task
     \<Rightarrow> ((error \<times> task) + task) option" where
  "initialize C since until thread_count fetch mapf self =
     (if LOCAL_THREADS_RATIO C = 0 then Some (Inl (ZeroDivisionError, self))
      else probe_loop fetch mapf since until thread_count
             (max 1 (thread_count div LOCAL_THREADS_RATIO C)) self (MAX_ATTEMPT_TIMES C) 0)"

text \<open>
  \<^verbatim>\<open>BaseMapper.map_with_validation\<close>, which the wrapper passes as the mapping function:
  \<open>mapping\<close> is the \<^verbatim>\<open>map\<close> of the mapper class. It returns the mapped rows and the class
  state that \<^verbatim>\<open>validate\<close> has left.
\<close>

definition map_with_validation ::
  "mapper \<Rightarrow> (tval list list \<Rightarrow> error + tval list list) \<Rightarrow> page
     \<Rightarrow> error + (tval list list \<times> mapper)" where
  "map_with_validation cls mapping data =
     (case data of
        None \<Rightarrow> Inl (ValueError ''Data has a bad type'')
      | Some raw \<Rightarrow>
          (case mapping raw of
             Inl e \<Rightarrow> Inl e
           | Inr rows \<Rightarrow>
               (case validate cls rows of
                  Inl e \<Rightarrow> Inl e
                | Inr cls' \<Rightarrow> Inr (rows, cls'))))"

text \<open>
  The mapping function that \<^verbatim>\<open>fetch_all_funding_rate_history\<close> passes to the task,
  \<^verbatim>\<open>mapper.map_with_validation\<close>, for a mapper class that is in the state \<open>cls\<close> before
  the first call. The class keeps what \<^verbatim>\<open>validate\<close> has written: the state before the
  \<open>k\<close>-th call is the one the calls before it have left, on the pages \<open>inputs 0\<close>, ...,
  \<open>inputs (k - 1)\<close> they were given (a call that raises leaves the state as it was).
\<close>

fun class_state_before ::
  "mapper \<Rightarrow> (tval list list \<Rightarrow> error + tval list list) \<Rightarrow> (nat \<Rightarrow> page) \<Rightarrow> nat \<Rightarrow> mapper" where
  "class_state_before cls mapping inputs 0 = cls"
| "class_state_before cls mapping inputs (Suc k) =
     (case map_with_validation (class_state_before cls mapping inputs k) mapping (inputs k) of
        Inl e \<Rightarrow> class_state_before cls mapping inputs k
      | Inr (rows, cls') \<Rightarrow> cls')"

definition map_func_of ::
  "mapper \<Rightarrow> (tval list list \<Rightarrow> error + tval list list) \<Rightarrow> (nat \<Rightarrow> page) \<Rightarrow> map_func" where
  "map_func_of cls mapping inputs k data =
     (case map_with_validation (class_state_before cls mapping inputs k) mapping data of
        Inl e \<Rightarrow> Inl e
      | Inr (rows, cls') \<Rightarrow> Inr (Some rows))"

definition example_config :: planner_config where
  "example_config = \<lparr>MAX_ATTEMPT_TIMES = 3, LOCAL_THREADS_RATIO = 2\<rparr>"

text \<open>A fetch that fails once and then answers with a page of a single row.\<close>

definition one_row_fetch :: fetch_func where
  "one_row_fetch k since =
     (if k = 0 then (None, ERROR) else (Some [[TInt 5, TStr ''x'']], NORMAL))"

section \<open>The fetch engine: \<^verbatim>\<open>core/factory.py\<close>\<close>

text \<open>
  \<^verbatim>\<open>Factory.complete\<close> runs the main thread, the online workers and the local workers
  on shared queues. The model is an interleaving of their atomic steps: every access
  to a queue, to the stop event, to the error slot or to the cache is a step of its
  own, and a schedule (a list of thread names) says which thread takes the next step.
  A thread that waits (\<^verbatim>\<open>get\<close> on an empty queue, \<^verbatim>\<open>join\<close> on a queue with unfinished
  tasks or on a thread that is running) has no step.

  The fetch collaborator may answer differently each time it is called: \<open>fetch ts n\<close> is
  its answer to the call with \<^verbatim>\<open>since=ts\<close> that \<open>n\<close> earlier calls with that timestamp
  have preceded. Rows are of any type \<open>'r\<close>.
\<close>

type_synonym 'r fetched = "'r list option \<times> DataFlag"

text \<open>Where a worker stands in \<^verbatim>\<open>_online_worker\<close>, and what it holds in its local variables.\<close>

datatype 'r online_pc =
    OTop
      \<comment> \<open>at \<^verbatim>\<open>while not self._stop_event.is_set()\<close>\<close>
  | OGet
      \<comment> \<open>in \<^verbatim>\<open>self._online_queue.get()\<close>\<close>
  | OCheck int int
      \<comment> \<open>has \<^verbatim>\<open>ts, attempt_times\<close>, at \<^verbatim>\<open>if attempt_times > self.max_attempts\<close>\<close>
  | OFetch int int
      \<comment> \<open>at \<^verbatim>\<open>self.fetch_data_callback(since=ts)\<close>\<close>
  | OPut int "'r list option" DataFlag int
      \<comment> \<open>at \<^verbatim>\<open>self._local_queue.put((ts, data, flag, attempt_times + 1))\<close>\<close>
  | ODone
      \<comment> \<open>at the \<^verbatim>\<open>task_done()\<close> that ends the loop body\<close>
  | OSentinel
      \<comment> \<open>has \<^verbatim>\<open>None\<close>, at \<^verbatim>\<open>task_done()\<close> before \<^verbatim>\<open>break\<close>\<close>
  | OExit

text \<open>The same for \<^verbatim>\<open>_local_worker\<close>.\<close>

datatype 'r local_pc =
    LTop
  | LGet
  | LHandle int "'r list option" DataFlag int
      \<comment> \<open>has \<^verbatim>\<open>ts, data, flag, attempt_times\<close>, at \<^verbatim>\<open>if flag == DataFlag.NORMAL\<close>\<close>
  | LDone
  | LSentinel
  | LExit

text \<open>
  The main thread in \<^verbatim>\<open>complete\<close>, after it has filled the online queue and started
  the workers: the two \<^verbatim>\<open>join\<close>s on the queues, \<^verbatim>\<open>_stop_threads\<close> for the local
  workers (so many \<^verbatim>\<open>put(None)\<close>, then the \<^verbatim>\<open>join\<close>s of the threads), the same for the
  online workers, and the look at the error slot.
\<close>

datatype 'r main_pc =
    MJoinOnlineQueue
  | MJoinLocalQueue
  | MStopLocal nat
  | MJoinLocalThreads
  | MStopOnline nat
  | MJoinOnlineThreads
  | MFinish
  | MReturned "'r list"
  | MRaised error

text \<open>
  The attributes of the \<^verbatim>\<open>Factory\<close>, the unfinished-task counters of its two queues,
  the threads, and \<open>fetch_calls\<close>: the timestamps the fetch collaborator has been
  called with, in the order of the calls.
\<close>

record 'r factory =
  max_attempts :: int
  online_queue :: "(int \<times> int) option list"
  online_unfinished :: nat
  local_queue :: "(int \<times> 'r list option \<times> DataFlag \<times> int) option list"
  local_unfinished :: nat
  stop_event :: bool
  abnormal_termination_info :: "(int \<times> int) option"
  cached_raw_data :: "'r list"
  fetch_calls :: "int list"
  online_threads :: "'r online_pc list"
  local_threads :: "'r local_pc list"
  main_thread :: "'r main_pc"

datatype thread = Main | Online nat | Local nat

text \<open>
  The state in which \<^verbatim>\<open>complete(task)\<close> waits at \<^verbatim>\<open>self._online_queue.join()\<close>, on a
  new \<^verbatim>\<open>Factory\<close>: \<^verbatim>\<open>_initialize_flow_line\<close> has put \<^verbatim>\<open>(ts, 0)\<close> for every planned
  timestamp and \<^verbatim>\<open>_start_workers\<close> has started the threads. A task that was never
  initialized has \<^verbatim>\<open>None\<close> in its fields, which can be neither iterated nor counted to.
\<close>

definition started :: "int \<Rightarrow> task \<Rightarrow> error + 'r factory" where
  "started max_att t =
     (case timestamp_list t of
        None \<Rightarrow> Inl (TypeError ''NoneType object is not iterable'')
      | Some timestamps \<Rightarrow>
          (case online_worker_count t of
             None \<Rightarrow> Inl (TypeError ''NoneType object cannot be interpreted as an integer'')
           | Some online_count \<Rightarrow>
               (case local_worker_count t of
                  None \<Rightarrow> Inl (TypeError ''NoneType object cannot be interpreted as an integer'')
                | Some local_count \<Rightarrow>
                    Inr \<lparr>max_attempts = max_att,
                         online_queue = map (\<lambda>ts. Some (ts, 0)) timestamps,
                         online_unfinished = length timestamps,
                         local_queue = [],
                         local_unfinished = 0,
                         stop_event = False,
                         abnormal_termination_info = None,
                         cached_raw_data = [],
                         fetch_calls = [],
                         online_threads = replicate (nat online_count) OTop,
                         local_threads = replicate (nat local_count) LTop,
                         main_thread = MJoinOnlineQueue\<rparr>)))"

text \<open>One step of the online worker \<open>i\<close>, which stands at \<open>pc\<close>.\<close>

definition online_step ::
  "(int \<Rightarrow> nat \<Rightarrow> 'r fetched) \<Rightarrow> nat \<Rightarrow> 'r online_pc \<Rightarrow> 'r factory \<Rightarrow> 'r factory option" where
  "online_step fetch i pc st =
     (case pc of
        OTop \<Rightarrow>
          Some (st\<lparr>online_threads := (online_threads st)
                  [i := (if stop_event st then OExit else OGet)]\<rparr>)
      | OGet \<Rightarrow>
          (case online_queue st of
             [] \<Rightarrow> None
           | item # queue \<Rightarrow>
               Some (st\<lparr>online_queue := queue,
                        online_threads := (online_threads st)
                          [i := (case item of None \<Rightarrow> OSentinel
                                 | Some (ts, attempt_times) \<Rightarrow> OCheck ts attempt_times)]\<rparr>))
      | OCheck ts attempt_times \<Rightarrow>
          Some ((if attempt_times > max_attempts st
                 then st\<lparr>stop_event := True,
                         abnormal_termination_info :=
                           (if abnormal_termination_info st = None
                            then Some (attempt_times - 1, ts)
                            else abnormal_termination_info st)\<rparr>
                 else st)
                \<lparr>online_threads := (online_threads st)[i := OFetch ts attempt_times]\<rparr>)
      | OFetch ts attempt_times \<Rightarrow>
          (case fetch ts (count_list (fetch_calls st) ts) of
             (data, flag) \<Rightarrow>
               Some (st\<lparr>fetch_calls := fetch_calls st @ [ts],
                        online_threads := (online_threads st)
                          [i := OPut ts data flag attempt_times]\<rparr>))
      | OPut ts data flag attempt_times \<Rightarrow>
          Some (st\<lparr>local_queue := local_queue st @ [Some (ts, data, flag, attempt_times + 1)],
                   local_unfinished := local_unfinished st + 1,
                   online_threads := (online_threads st)[i := ODone]\<rparr>)
      | ODone \<Rightarrow>
          Some (st\<lparr>online_unfinished := online_unfinished st - 1,
                   online_threads := (online_threads st)[i := OTop]\<rparr>)
      | OSentinel \<Rightarrow>
          Some (st\<lparr>online_unfinished := online_unfinished st - 1,
                   online_threads := (online_threads st)[i := OExit]\<rparr>)
      | OExit \<Rightarrow> None)"

text \<open>One step of the local worker \<open>j\<close>. Python's \<^verbatim>\<open>if data:\<close> holds for a list that is not empty.\<close>

definition local_step :: "nat \<Rightarrow> 'r local_pc \<Rightarrow> 'r factory \<Rightarrow> 'r factory option" where
  "local_step j pc st =
     (case pc of
        LTop \<Rightarrow>
          Some (st\<lparr>local_threads := (local_threads st)
                  [j := (if stop_event st then LExit else LGet)]\<rparr>)
      | LGet \<Rightarrow>
          (case local_queue st of
             [] \<Rightarrow> None
           | item # queue \<Rightarrow>
               Some (st\<lparr>local_queue := queue,
                        local_threads := (local_threads st)
                          [j := (case item of None \<Rightarrow> LSentinel
                                 | Some (ts, data, flag, attempt_times) \<Rightarrow>
                                     LHandle ts data flag attempt_times)]\<rparr>))
      | LHandle ts data flag attempt_times \<Rightarrow>
          Some ((if flag = NORMAL then
                   (case data of
                      None \<Rightarrow> st
                    | Some rows \<Rightarrow>
                        if rows \<noteq> [] then st\<lparr>cached_raw_data := cached_raw_data st @ rows\<rparr>
                        else st)
                 else st\<lparr>online_queue := online_queue st @ [Some (ts, attempt_times)],
                         online_unfinished := online_unfinished st + 1\<rparr>)
                \<lparr>local_threads := (local_threads st)[j := LDone]\<rparr>)
      | LDone \<Rightarrow>
          Some (st\<lparr>local_unfinished := local_unfinished st - 1,
                   local_threads := (local_threads st)[j := LTop]\<rparr>)
      | LSentinel \<Rightarrow>
          Some (st\<lparr>local_unfinished := local_unfinished st - 1,
                   local_threads := (local_threads st)[j := LExit]\<rparr>)
      | LExit \<Rightarrow> None)"

text \<open>One step of the main thread.\<close>

definition main_step :: "'r factory \<Rightarrow> 'r factory option" where
  "main_step st =
     (case main_thread st of
        MJoinOnlineQueue \<Rightarrow>
          if online_unfinished st = 0 then Some (st\<lparr>main_thread := MJoinLocalQueue\<rparr>)
          else None
      | MJoinLocalQueue \<Rightarrow>
          if local_unfinished st = 0
          then Some (st\<lparr>main_thread := MStopLocal (length (local_threads st))\<rparr>)
          else None
      | MStopLocal n \<Rightarrow>
          if n = 0 then Some (st\<lparr>main_thread := MJoinLocalThreads\<rparr>)
          else Some (st\<lparr>local_queue := local_queue st @ [None],
                        local_unfinished := local_unfinished st + 1,
                        main_thread := MStopLocal (n - 1)\<rparr>)
      | MJoinLocalThreads \<Rightarrow>
          if list_all (\<lambda>pc. pc = LExit) (local_threads st)
          then Some (st\<lparr>main_thread := MStopOnline (length (online_threads st))\<rparr>)
          else None
      | MStopOnline n \<Rightarrow>
          if n = 0 then Some (st\<lparr>main_thread := MJoinOnlineThreads\<rparr>)
          else Some (st\<lparr>online_queue := online_queue st @ [None],
                        online_unfinished := online_unfinished st + 1,
                        main_thread := MStopOnline (n - 1)\<rparr>)
      | MJoinOnlineThreads \<Rightarrow>
          if list_all (\<lambda>pc. pc = OExit) (online_threads st)
          then Some (st\<lparr>main_thread := MFinish\<rparr>)
          else None
      | MFinish \<Rightarrow>
          (case abnormal_termination_info st of
             Some (n, ts) \<Rightarrow> Some (st\<lparr>main_thread := MRaised (RuntimeError_exceeded n ts)\<rparr>)
           | None \<Rightarrow> Some (st\<lparr>main_thread := MReturned (cached_raw_data st)\<rparr>))
      | MReturned rows \<Rightarrow> None
      | MRaised e \<Rightarrow> None)"

text \<open>A step of the named thread, if there is such a thread and it can take one.\<close>

definition thread_step ::
  "(int \<Rightarrow> nat \<Rightarrow> 'r fetched) \<Rightarrow> thread \<Rightarrow> 'r factory \<Rightarrow> 'r factory option" where
  "thread_step fetch t st =
     (case t of
        Main \<Rightarrow> main_step st
      | Online i \<Rightarrow>
          if i < length (online_threads st) then online_step fetch i (online_threads st ! i) st
          else None
      | Local j \<Rightarrow>
          if j < length (local_threads st) then local_step j (local_threads st ! j) st
          else None)"

text \<open>The state after the steps of a schedule, if each of them can be taken in its turn.\<close>

fun run ::
  "(int \<Rightarrow> nat \<Rightarrow> 'r fetched) \<Rightarrow> thread list \<Rightarrow> 'r factory \<Rightarrow> 'r factory option" where
  "run fetch [] st = Some st"
| "run fetch (t # schedule) st =
     (case thread_step fetch t st of None \<Rightarrow> None | Some st' \<Rightarrow> run fetch schedule st')"

text \<open>
  The state is stuck when no thread can take a step. A stuck state with the main
  thread short of its end is a \<^verbatim>\<open>complete\<close> that never returns.
\<close>

definition stuck :: "(int \<Rightarrow> nat \<Rightarrow> 'r fetched) \<Rightarrow> 'r factory \<Rightarrow> bool" where
  "stuck fetch st \<longleftrightarrow>
     main_step st = None \<and>
     list_all (\<lambda>i. online_step fetch i (online_threads st ! i) st = None)
       [0 ..< length (online_threads st)] \<and>
     list_all (\<lambda>j. local_step j (local_threads st ! j) st = None)
       [0 ..< length (local_threads st)]"

text \<open>Plans and fetch collaborators used in the examples.\<close>

definition plan_of :: "int list \<Rightarrow> int \<Rightarrow> int \<Rightarrow> task" where
  "plan_of timestamps online_count local_count =
     \<lparr>timestamp_list = Some timestamps, online_worker_count = Some online_count,
      local_worker_count = Some local_count\<rparr>"

definition fails_once :: "int \<Rightarrow> nat \<Rightarrow> string fetched" where
  "fails_once ts n = (if n = 0 then (None, ERROR) else (Some [''row''], NORMAL))"

definition always_fails :: "int \<Rightarrow> nat \<Rightarrow> string fetched" where
  "always_fails ts n = (None, ERROR)"

text \<open>
  Schedules for one timestamp, one online worker and one local worker. In the first the
  main thread passes \<^verbatim>\<open>_online_queue.join()\<close> after the first attempt has failed and
  before the local worker has put the unit back, and the workers' sentinels overtake
  the second attempt; in the second the retry is over before the main thread looks.
\<close>

definition lost_schedule :: "thread list" where
  "lost_schedule =
     [Online 0, Online 0, Online 0, Online 0, Online 0, Online 0,
      Main,
      Local 0, Local 0, Local 0, Local 0,
      Main, Main, Main,
      Local 0, Local 0, Local 0,
      Main, Main, Main,
      Online 0, Online 0, Online 0, Online 0, Online 0, Online 0,
      Online 0, Online 0, Online 0,
      Main, Main]"

definition kept_schedule :: "thread list" where
  "kept_schedule =
     [Online 0, Online 0, Online 0, Online 0, Online 0,
      Local 0, Local 0, Local 0, Local 0,
      Online 0,
      Online 0, Online 0, Online 0, Online 0, Online 0, Online 0,
      Local 0, Local 0, Local 0, Local 0, Local 0,
      Main, Main, Main, Main,
      Local 0, Local 0,
      Main, Main, Main,
      Online 0, Online 0, Online 0,
      Main, Main]"

text \<open>
  Schedules for a unit whose fetch always fails, with \<^verbatim>\<open>max_attempts = 1\<close>: the main
  thread passes \<^verbatim>\<open>_online_queue.join()\<close> before, or only looks after, the local worker
  has put the unit back for the last time.
\<close>

definition exceeded_schedule :: "thread list" where
  "exceeded_schedule =
     [Online 0, Online 0, Online 0, Online 0, Online 0, Online 0,
      Local 0, Local 0, Local 0, Local 0,
      Online 0, Online 0, Online 0, Online 0, Online 0, Online 0,
      Local 0, Local 0, Local 0, Local 0, Local 0,
      Online 0, Online 0, Online 0, Online 0, Online 0, Online 0, Online 0,
      Main,
      Local 0, Local 0, Local 0, Local 0,
      Main, Main, Main, Main, Main, Main, Main, Main]"

definition hanging_schedule :: "thread list" where
  "hanging_schedule =
     [Online 0, Online 0, Online 0, Online 0, Online 0, Online 0,
      Local 0, Local 0, Local 0, Local 0,
      Online 0, Online 0, Online 0, Online 0, Online 0, Online 0,
      Local 0, Local 0, Local 0, Local 0, Local 0,
      Online 0, Online 0, Online 0, Online 0, Online 0, Online 0, Online 0,
      Local 0, Local 0, Local 0, Local 0]"

text \<open>
  Where the main thread stands after a schedule, the calls of the fetch collaborator,
  and whether the state is stuck.
\<close>

definition outcome_of ::
  "(int \<Rightarrow> nat \<Rightarrow> 'r fetched) \<Rightarrow> thread list \<Rightarrow> int \<Rightarrow> task
     \<Rightarrow> ('r main_pc \<times> int list \<times> bool) option" where
  "outcome_of fetch schedule max_att t =
     (case started max_att t of
        Inl e \<Rightarrow> None
      | Inr st \<Rightarrow>
          (case run fetch schedule st of
             None \<Rightarrow> None
           | Some st' \<Rightarrow> Some (main_thread st', fetch_calls st', stuck fetch st')))"

text \<open>
  What holds in every state a schedule reaches. The attempt count a unit carries is at
  most the number of calls the fetch collaborator has had for its timestamp (one less,
  for a worker that holds the answer). Once the error slot names a timestamp, the
  worker that wrote it is about to fetch that timestamp or has done so. The main thread
  is past the joins only when every online worker has left its loop, and raises what
  the slot holds.
\<close>

definition calls_of :: "'r factory \<Rightarrow> int \<Rightarrow> int" where
  "calls_of st ts = int (count_list (fetch_calls st) ts)"

definition online_pc_counted :: "'r factory \<Rightarrow> 'r online_pc \<Rightarrow> bool" where
  "online_pc_counted st pc =
     (case pc of
        OCheck ts a \<Rightarrow> a \<le> calls_of st ts
      | OFetch ts a \<Rightarrow> a \<le> calls_of st ts
      | OPut ts d f a \<Rightarrow> a + 1 \<le> calls_of st ts
      | _ \<Rightarrow> True)"

definition local_pc_counted :: "'r factory \<Rightarrow> 'r local_pc \<Rightarrow> bool" where
  "local_pc_counted st pc =
     (case pc of LHandle ts d f a \<Rightarrow> a \<le> calls_of st ts | _ \<Rightarrow> True)"

definition unit_counted :: "'r factory \<Rightarrow> (int \<times> int) option \<Rightarrow> bool" where
  "unit_counted st item = (case item of None \<Rightarrow> True | Some (ts, a) \<Rightarrow> a \<le> calls_of st ts)"

definition result_counted ::
  "'r factory \<Rightarrow> (int \<times> 'r list option \<times> DataFlag \<times> int) option \<Rightarrow> bool" where
  "result_counted st item =
     (case item of None \<Rightarrow> True | Some (ts, d, f, a) \<Rightarrow> a \<le> calls_of st ts)"

definition attempts_counted :: "'r factory \<Rightarrow> bool" where
  "attempts_counted st \<longleftrightarrow>
     list_all (unit_counted st) (online_queue st) \<and>
     list_all (online_pc_counted st) (online_threads st) \<and>
     list_all (result_counted st) (local_queue st) \<and>
     list_all (local_pc_counted st) (local_threads st)"

definition exceeded_is_fetched :: "'r factory \<Rightarrow> bool" where
  "exceeded_is_fetched st \<longleftrightarrow>
     (case abnormal_termination_info st of
        None \<Rightarrow> True
      | Some (n, ts) \<Rightarrow>
          max_attempts st \<le> n \<and>
          (n + 2 \<le> calls_of st ts \<or> OFetch ts (n + 1) \<in> set (online_threads st)))"

definition main_after_joins :: "'r factory \<Rightarrow> bool" where
  "main_after_joins st \<longleftrightarrow>
     (case main_thread st of
        MFinish \<Rightarrow> list_all (\<lambda>pc. pc = OExit) (online_threads st)
      | MReturned rows \<Rightarrow> list_all (\<lambda>pc. pc = OExit) (online_threads st)
      | MRaised e \<Rightarrow>
          list_all (\<lambda>pc. pc = OExit) (online_threads st) \<and>
          (case abnormal_termination_info st of
             None \<Rightarrow> False
           | Some (n, ts) \<Rightarrow> e = RuntimeError_exceeded n ts)
      | _ \<Rightarrow> True)"

definition engine_invariant :: "'r factory \<Rightarrow> bool" where
  "engine_invariant st \<longleftrightarrow> attempts_counted st \<and> exceeded_is_fetched st \<and> main_after_joins st"

text \<open>
  The state in which \<^verbatim>\<open>complete\<close> starts on the plan of the examples, and the state in
  which \<open>exceeded_schedule\<close> ends.
\<close>

definition single_unit_start :: "string factory" where
  "single_unit_start =
     \<lparr>max_attempts = 1, online_queue = [Some (7, 0)], online_unfinished = 1,
      local_queue = [], local_unfinished = 0, stop_event = False,
      abnormal_termination_info = None, cached_raw_data = [], fetch_calls = [],
      online_threads = [OTop], local_threads = [LTop], main_thread = MJoinOnlineQueue\<rparr>"

definition exceeded_end :: "string factory" where
  "exceeded_end =
     \<lparr>max_attempts = 1, online_queue = [Some (7, 3), None], online_unfinished = 2,
      local_queue = [None], local_unfinished = 1, stop_event = True,
      abnormal_termination_info = Some (1, 7), cached_raw_data = [], fetch_calls = [7, 7, 7],
      online_threads = [OExit], local_threads = [LExit],
      main_thread = MRaised (RuntimeError_exceeded 1 7)\<rparr>"

section \<open>Properties of the mapper\<close>

lemma check_rows_None: "check_rows n data = None \<longleftrightarrow> (\<forall>row \<in> set data. length row = n)"
  by (induction data) auto

lemma check_rows_Some:
  "check_rows n data = Some e \<Longrightarrow> \<exists>k. k \<noteq> n \<and> e = DataFormatValidationError k n"
  by (induction data) (auto split: if_splits)

text \<open>
  C7, as the code has it. While the class has not passed a validation, \<^verbatim>\<open>validate\<close>
  checks every row against the declared column count: it raises
  \<^verbatim>\<open>DataFormatValidationError\<close> exactly when some row has another width, and
  otherwise sets \<^verbatim>\<open>_validated\<close>. Once \<^verbatim>\<open>_validated\<close> is set, every later call
  returns \<^verbatim>\<open>True\<close> without looking at its rows.
\<close>

theorem validate_checks_until_validated:
  assumes "columns cls = Some cols"
  shows "(\<not> validated cls \<longrightarrow>
            ((\<exists>row \<in> set data. length row \<noteq> length cols) \<longrightarrow>
               (\<exists>k. k \<noteq> length cols \<and>
                  validate cls data = Inl (DataFormatValidationError k (length cols)))) \<and>
            ((\<forall>row \<in> set data. length row = length cols) \<longrightarrow>
               validate cls data = Inr (cls\<lparr>validated := True\<rparr>))) \<and>
         (validated cls \<longrightarrow> validate cls data = Inr cls)"
proof -
  have bad: "\<exists>k. k \<noteq> length cols \<and>
      validate cls data = Inl (DataFormatValidationError k (length cols))"
    if "\<not> validated cls" and "\<exists>row \<in> set data. length row \<noteq> length cols"
  proof -
    from that(2) have "check_rows (length cols) data \<noteq> None"
      by (auto simp: check_rows_None)
    then obtain e where e: "check_rows (length cols) data = Some e"
      by auto
    from check_rows_Some [OF e] obtain k
      where "k \<noteq> length cols" and "e = DataFormatValidationError k (length cols)"
      by auto
    with e that(1) assms show ?thesis
      by (auto simp: validate_def)
  qed
  have good: "validate cls data = Inr (cls\<lparr>validated := True\<rparr>)"
    if "\<not> validated cls" and "\<forall>row \<in> set data. length row = length cols"
  proof -
    from that(2) have "check_rows (length cols) data = None"
      by (simp add: check_rows_None)
    with that(1) assms show ?thesis
      by (simp add: validate_def)
  qed
  have skip: "validate cls data = Inr cls" if "validated cls"
    using that by (simp add: validate_def)
  from bad good skip show ?thesis
    by blast
qed

theorem validate_checks_until_validated_witness:
  "columns OHLCVMapper = Some [''time'', ''open'', ''high'', ''low'', ''close''] \<and>
   \<not> validated OHLCVMapper \<and>
   (\<exists>row \<in> set [[1, 2, 3, 4, 5], [1 :: int]]. length row \<noteq> 5) \<and>
   validate OHLCVMapper [[1, 2, 3, 4, 5], [1 :: int]] = Inl (DataFormatValidationError 1 5) \<and>
   validate (OHLCVMapper\<lparr>validated := True\<rparr>) [[1, 2, 3, 4, 5], [1 :: int]]
     = Inr (OHLCVMapper\<lparr>validated := True\<rparr>)"
  using validate_checks_until_validated
    [of OHLCVMapper "[''time'', ''open'', ''high'', ''low'', ''close'']"
        "[[1, 2, 3, 4, 5], [1 :: int]]"]
  by (simp add: OHLCVMapper_def validate_def)

text \<open>
  C7 as stated fails: a first call on an empty list passes and sets the flag, and the
  second call then accepts a row of width 1 against five declared columns.
\<close>

theorem validate_every_call_counterexample:
  "validate OHLCVMapper ([] :: int list list) = Inr (OHLCVMapper\<lparr>validated := True\<rparr>) \<and>
   validate (OHLCVMapper\<lparr>validated := True\<rparr>) [[1 :: int]]
     = Inr (OHLCVMapper\<lparr>validated := True\<rparr>) \<and>
   columns (OHLCVMapper\<lparr>validated := True\<rparr>)
     = Some [''time'', ''open'', ''high'', ''low'', ''close''] \<and>
   length [1 :: int] \<noteq> length [''time'', ''open'', ''high'', ''low'', ''close'']"
  by (simp add: OHLCVMapper_def validate_def)

section \<open>Properties of the persister\<close>

subsection \<open>Idempotence of \<^verbatim>\<open>drop_duplicates\<close> and \<^verbatim>\<open>sort\<close>\<close>

lemma keep_first_unseen: "r \<in> set (keep_first seen rs) \<Longrightarrow> rtime r \<notin> set seen"
proof (induction rs arbitrary: seen)
  case Nil
  then show ?case by simp
next
  case (Cons a rs)
  show ?case
  proof (cases "rtime a \<in> set seen")
    case True
    with Cons show ?thesis by simp
  next
    case False
    with Cons.prems have "r = a \<or> r \<in> set (keep_first (rtime a # seen) rs)"
      by simp
    then show ?thesis
    proof
      assume "r = a"
      with False show ?thesis by simp
    next
      assume "r \<in> set (keep_first (rtime a # seen) rs)"
      from Cons.IH [OF this] show ?thesis by simp
    qed
  qed
qed

lemma keep_first_distinct: "distinct (map rtime (keep_first seen rs))"
  by (induction rs arbitrary: seen) (auto dest: keep_first_unseen)

lemma keep_first_id:
  "distinct (map rtime rs) \<Longrightarrow> set (map rtime rs) \<inter> set seen = {} \<Longrightarrow> keep_first seen rs = rs"
  by (induction rs arbitrary: seen) auto

lemma keep_first_idem: "keep_first [] (keep_first [] rs) = keep_first [] rs"
  by (rule keep_first_id) (simp_all add: keep_first_distinct)

lemma filter_same_key:
  "distinct (map key xs) \<Longrightarrow> k \<in> set xs \<Longrightarrow> filter (\<lambda>x. key k = key x) xs = [k]"
proof (induction xs)
  case Nil
  then show ?case by simp
next
  case (Cons a xs)
  show ?case
  proof (cases "k = a")
    case True
    have "filter (\<lambda>x. key a = key x) xs = []"
      using Cons.prems(1) by (auto simp: filter_empty_conv)
    with True show ?thesis by simp
  next
    case False
    with Cons.prems have k: "k \<in> set xs"
      by simp
    then have "key k \<in> key ` set xs"
      by simp
    with Cons.prems(1) have "key k \<noteq> key a"
      by auto
    with k Cons show ?thesis by simp
  qed
qed

lemma sorted_permutation_unique:
  assumes "mset ys = mset xs" and "sorted (map key ys)" and "distinct (map key xs)"
  shows "sort_key key xs = ys"
proof (rule properties_for_sort_key [OF assms(1) _ assms(2)])
  fix k assume k: "k \<in> set ys"
  have "mset (map key ys) = mset (map key xs)"
    using assms(1) by simp
  then have dys: "distinct (map key ys)"
    using assms(3) by (metis mset_eq_imp_distinct_iff)
  from k assms(1) have "k \<in> set xs"
    by (metis mset_eq_setD)
  with assms(3) dys k show "filter (\<lambda>x. key k = key x) ys = filter (\<lambda>x. key k = key x) xs"
    by (simp add: filter_same_key)
qed

text \<open>What the contract of the sorting routine gives.\<close>

lemma sorts_keys_perm: "sorts_keys routine \<Longrightarrow> mset (routine items) = mset [0 ..< length items]"
  by (simp add: sorts_keys_def)

lemma sorts_keys_sorted:
  "sorts_keys routine \<Longrightarrow> sorted (map (\<lambda>i. tkey (items ! i)) (routine items))"
  by (simp add: sorts_keys_def)

lemma sorts_keys_stable_argsort: "sorts_keys stable_argsort"
  by (simp add: sorts_keys_def stable_argsort_def)

lemma sorts_keys_reversing_argsort: "sorts_keys reversing_argsort"
  by (simp add: sorts_keys_def reversing_argsort_def)

lemma inj_tkey: "inj tkey"
  by (auto simp: inj_def tkey_def split: tval.splits)

lemma keys_of_positions: "map (\<lambda>i. tkey (items ! i)) [0 ..< length items] = map tkey items"
proof -
  have "map (\<lambda>i. tkey (items ! i)) [0 ..< length items]
      = map tkey (map (\<lambda>i. items ! i) [0 ..< length items])"
    by simp
  then show ?thesis
    by (simp only: map_nth)
qed

text \<open>
  On a column that is sorted and has no value twice, the routine can only return the
  positions in their order.
\<close>

lemma argsort_of_sorted:
  assumes "sorts_keys routine" and "sorted (map tkey items)" and "distinct items"
  shows "routine items = [0 ..< length items]"
proof -
  let ?key = "\<lambda>i. tkey (items ! i)"
  have "distinct (map tkey items)"
    using assms(3) inj_tkey by (simp add: distinct_map inj_on_def inj_def)
  then have d: "distinct (map ?key [0 ..< length items])"
    by (simp only: keys_of_positions)
  have s: "sorted (map ?key [0 ..< length items])"
    using assms(2) by (simp only: keys_of_positions)
  have "sort_key ?key [0 ..< length items] = routine items"
    using sorts_keys_perm [OF assms(1)] sorts_keys_sorted [OF assms(1)] d
    by (rule sorted_permutation_unique)
  moreover have "sort_key ?key [0 ..< length items] = [0 ..< length items]"
    using refl s d by (rule sorted_permutation_unique)
  ultimately show ?thesis
    by simp
qed

lemma reversed_positions: "map (\<lambda>j. n - 1 - j) [0 ..< n] = rev [0 ..< n]"
  by (rule nth_equalityI) (simp_all add: rev_nth)

lemma nargsort_perm:
  assumes "sorts_keys (argsort E)"
  shows "mset (nargsort E ascending items) = mset [0 ..< length items]"
proof (cases ascending)
  case True
  with sorts_keys_perm [OF assms] show ?thesis
    by (simp add: nargsort_def)
next
  case False
  have "mset (map (\<lambda>j. length items - 1 - j) (argsort E (rev items)))
      = image_mset (\<lambda>j. length items - 1 - j) (mset (argsort E (rev items)))"
    by simp
  also have "\<dots> = image_mset (\<lambda>j. length items - 1 - j) (mset [0 ..< length items])"
    using sorts_keys_perm [OF assms, of "rev items"] by simp
  also have "\<dots> = mset (map (\<lambda>j. length items - 1 - j) [0 ..< length items])"
    by simp
  also have "\<dots> = mset [0 ..< length items]"
    by (simp only: reversed_positions mset_rev)
  finally have "mset (rev (map (\<lambda>j. length items - 1 - j) (argsort E (rev items))))
      = mset [0 ..< length items]"
    by (simp only: mset_rev)
  moreover have "nargsort E ascending items
      = rev (map (\<lambda>j. length items - 1 - j) (argsort E (rev items)))"
    using False by (simp add: nargsort_def)
  ultimately show ?thesis
    by (simp only:)
qed

lemma nargsort_set:
  assumes "sorts_keys (argsort E)"
  shows "set (nargsort E ascending items) = {0 ..< length items}"
    and "length (nargsort E ascending items) = length items"
proof -
  from nargsort_perm [OF assms, of ascending items]
  have m: "mset (nargsort E ascending items) = mset [0 ..< length items]" .
  from mset_eq_setD [OF m] show "set (nargsort E ascending items) = {0 ..< length items}"
    by simp
  from mset_eq_length [OF m] show "length (nargsort E ascending items) = length items"
    by simp
qed

lemma take_positions:
  assumes "mset p = mset [0 ..< length xs]"
  shows "mset (map (\<lambda>i. xs ! i) p) = mset xs"
proof -
  have "mset (map (\<lambda>i. xs ! i) p) = image_mset (\<lambda>i. xs ! i) (mset p)"
    by simp
  also have "\<dots> = mset (map (\<lambda>i. xs ! i) [0 ..< length xs])"
    using assms by simp
  also have "\<dots> = mset xs"
    by (simp only: map_nth)
  finally show ?thesis .
qed

text \<open>
  The keys taken in the order of the positions are ascending, or descending: the column
  read backwards is ascending. There is one such arrangement of a column.
\<close>

lemma nargsort_ordered:
  assumes "sorts_keys (argsort E)"
  shows "sorted (map tkey (if ascending then map (\<lambda>i. items ! i) (nargsort E ascending items)
                          else rev (map (\<lambda>i. items ! i) (nargsort E ascending items))))"
proof (cases ascending)
  case True
  then show ?thesis
    using sorts_keys_sorted [OF assms, of items] by (simp add: nargsort_def comp_def)
next
  case False
  let ?q = "argsort E (rev items)"
  have q: "set ?q = {0 ..< length items}"
    using mset_eq_setD [OF sorts_keys_perm [OF assms, of "rev items"]] by simp
  have "rev (map (\<lambda>i. items ! i) (nargsort E ascending items))
      = map (\<lambda>j. items ! (length items - 1 - j)) ?q"
    using False by (simp add: nargsort_def rev_map comp_def)
  also have "\<dots> = map (\<lambda>j. rev items ! j) ?q"
    using q by (intro map_cong refl) (simp add: rev_nth)
  finally have "map tkey (rev (map (\<lambda>i. items ! i) (nargsort E ascending items)))
      = map (\<lambda>j. tkey (rev items ! j)) ?q"
    by (simp add: comp_def)
  then show ?thesis
    using sorts_keys_sorted [OF assms, of "rev items"] False by simp
qed

lemma ordered_unique:
  assumes "sorted (map tkey (if ascending then xs else rev xs))"
    and "sorted (map tkey (if ascending then ys else rev ys))"
    and "mset xs = mset ys"
  shows "xs = ys"
proof -
  define f :: "tval list \<Rightarrow> tval list" where "f = (\<lambda>ks. if ascending then ks else rev ks)"
  have sx: "sorted (map tkey (f xs))" and sy: "sorted (map tkey (f ys))"
    using assms(1,2) by (simp_all add: f_def)
  have "mset (map tkey (f ys)) = mset (map tkey (f xs))"
    using assms(3) by (simp add: f_def)
  from properties_for_sort [OF this sy] have "sort (map tkey (f xs)) = map tkey (f ys)" .
  moreover have "sort (map tkey (f xs)) = map tkey (f xs)"
    using sx by (simp add: sort_key_id_if_sorted)
  ultimately have "map tkey (f xs) = map tkey (f ys)"
    by simp
  then have "f xs = f ys"
    by (simp only: inj_map_eq_map [OF inj_tkey])
  then show ?thesis
    by (cases ascending) (simp_all add: f_def)
qed

text \<open>A second sort finds the time column in order, and leaves it as it is.\<close>

lemma nargsort_column_fixed:
  assumes "sorts_keys (argsort E)"
  shows "map (\<lambda>i. map (\<lambda>i. items ! i) (nargsort E ascending items) ! i)
           (nargsort E ascending (map (\<lambda>i. items ! i) (nargsort E ascending items)))
       = map (\<lambda>i. items ! i) (nargsort E ascending items)"
proof -
  let ?items' = "map (\<lambda>i. items ! i) (nargsort E ascending items)"
  let ?items'' = "map (\<lambda>i. ?items' ! i) (nargsort E ascending ?items')"
  have "mset ?items'' = mset ?items'"
    using nargsort_perm [OF assms] by (rule take_positions)
  with nargsort_ordered [OF assms, of ascending ?items'] nargsort_ordered [OF assms, of ascending items]
  show ?thesis
    by (rule ordered_unique)
qed

text \<open>
  After a sort of a column without repeated values the routine finds the column in
  order, in either direction, and a second sort takes the rows as they are.
\<close>

lemma nargsort_of_sorted:
  assumes "sorts_keys (argsort E)" and "distinct items"
  shows "nargsort E ascending (map (\<lambda>i. items ! i) (nargsort E ascending items))
       = [0 ..< length items]"
proof -
  let ?items' = "map (\<lambda>i. items ! i) (nargsort E ascending items)"
  have len: "length ?items' = length items"
    using nargsort_set(2) [OF assms(1)] by simp
  have "mset ?items' = mset items"
    using nargsort_perm [OF assms(1)] by (rule take_positions)
  then have d: "distinct ?items'"
    using assms(2) by (metis mset_eq_imp_distinct_iff)
  note ordered = nargsort_ordered [OF assms(1), of ascending items]
  show ?thesis
  proof (cases ascending)
    case True
    with ordered have "sorted (map tkey ?items')"
      by simp
    from argsort_of_sorted [OF assms(1) this d] True len show ?thesis
      by (simp add: nargsort_def)
  next
    case False
    with ordered have "sorted (map tkey (rev ?items'))"
      by simp
    moreover have "distinct (rev ?items')"
      using d by simp
    ultimately have "argsort E (rev ?items') = [0 ..< length (rev ?items')]"
      by (rule argsort_of_sorted [OF assms(1)])
    then have "nargsort E False ?items'
        = rev (map (\<lambda>j. length items - 1 - j) [0 ..< length items])"
      using len by (simp add: nargsort_def)
    also have "\<dots> = [0 ..< length items]"
      by (simp only: reversed_positions rev_rev_ident)
    finally show ?thesis
      using False by simp
  qed
qed

lemma sort_values_Inr:
  assumes "sorts_keys (argsort E)" and "sort_values E ascending rows = Inr rows'"
  shows "rows' = map (\<lambda>i. rows ! i) (nargsort E ascending (map rtime rows))"
    and "mset rows' = mset rows"
    and "map rtime rows' = map (\<lambda>i. map rtime rows ! i) (nargsort E ascending (map rtime rows))"
proof -
  show r: "rows' = map (\<lambda>i. rows ! i) (nargsort E ascending (map rtime rows))"
    using assms(2) by (simp add: sort_values_def split: if_splits)
  have "mset (nargsort E ascending (map rtime rows)) = mset [0 ..< length rows]"
    using nargsort_perm [OF assms(1), of ascending "map rtime rows"] by simp
  from take_positions [OF this] r show "mset rows' = mset rows"
    by simp
  have "\<forall>i \<in> set (nargsort E ascending (map rtime rows)). i < length rows"
    using nargsort_set(1) [OF assms(1), of ascending "map rtime rows"] by simp
  then show "map rtime rows' = map (\<lambda>i. map rtime rows ! i) (nargsort E ascending (map rtime rows))"
    unfolding r by simp
qed

lemma sort_values_idem:
  assumes "sorts_keys (argsort E)" and "distinct (map rtime rows)"
    and "sort_values E ascending rows = Inr rows'"
  shows "sort_values E ascending rows' = Inr rows'"
proof -
  note facts = sort_values_Inr [OF assms(1,3)]
  have len: "length rows' = length rows"
    using mset_eq_length [OF facts(2)] .
  have "set rows' = set rows"
    using mset_eq_setD [OF facts(2)] .
  then have kinds: "list_all P rows' = list_all P rows" for P
    by (simp add: list_all_iff)
  have "nargsort E ascending (map rtime rows') = [0 ..< length (map rtime rows)]"
    unfolding facts(3) using assms(1,2) by (rule nargsort_of_sorted)
  then have "nargsort E ascending (map rtime rows') = [0 ..< length rows']"
    using len by simp
  then have "map (\<lambda>i. rows' ! i) (nargsort E ascending (map rtime rows')) = rows'"
    by (simp only: map_nth)
  moreover have "list_all (\<lambda>r. is_TInt (rtime r)) rows \<or> list_all (\<lambda>r. \<not> is_TInt (rtime r)) rows"
    using assms(3) by (simp add: sort_values_def split: if_splits)
  ultimately show ?thesis
    by (simp add: sort_values_def kinds)
qed

lemma sort_values_again:
  assumes "sorts_keys (argsort E)" and "sort_values E ascending rows = Inr rows'"
  shows "\<exists>rows''. sort_values E ascending rows' = Inr rows'' \<and>
           map rtime rows'' = map rtime rows' \<and> mset rows'' = mset rows'"
proof -
  note first = sort_values_Inr [OF assms]
  have "set rows' = set rows"
    using mset_eq_setD [OF first(2)] .
  then have kinds: "list_all P rows' = list_all P rows" for P
    by (simp add: list_all_iff)
  have "list_all (\<lambda>r. is_TInt (rtime r)) rows \<or> list_all (\<lambda>r. \<not> is_TInt (rtime r)) rows"
    using assms(2) by (simp add: sort_values_def split: if_splits)
  then obtain rows'' where second: "sort_values E ascending rows' = Inr rows''"
    by (simp add: sort_values_def kinds)
  note again = sort_values_Inr [OF assms(1) second]
  have "map rtime rows'' = map rtime rows'"
    unfolding again(3) first(3) using assms(1) by (rule nargsort_column_fixed)
  with second again(2) show ?thesis
    by blast
qed

text \<open>
  C9, as the code has it. Running \<^verbatim>\<open>_drop_duplicates\<close> on the state it has left gives
  that state again, for every state. Running \<^verbatim>\<open>_sort\<close> on the state it has left gives
  that state again, rows and their order included and in either direction, when no two
  rows of the table have the same time value and the sorting routine sorts; where the
  first call raises, the exception is the outcome of both. On every table that a first
  \<^verbatim>\<open>_sort\<close> has left, a second one returns and leaves the same rows with the same time
  column: it can only have moved rows of equal time.
\<close>

theorem drop_duplicates_idempotent_and_sort_of_distinct_times:
  "and_then (CSVSaver_drop_duplicates st) CSVSaver_drop_duplicates = CSVSaver_drop_duplicates st \<and>
   (sorts_keys (argsort E) \<and> distinct_times st \<longrightarrow>
      and_then (CSVSaver_sort E ascending st) (CSVSaver_sort E ascending)
        = CSVSaver_sort E ascending st) \<and>
   (sorts_keys (argsort E) \<and> CSVSaver_sort E ascending st = Inr st1 \<longrightarrow>
      (\<exists>rows1 rows2. df st1 = Some rows1 \<and>
         CSVSaver_sort E ascending st1 = Inr (st1\<lparr>df := Some rows2\<rparr>) \<and>
         map rtime rows2 = map rtime rows1 \<and> mset rows2 = mset rows1))"
proof (intro conjI impI)
  show "and_then (CSVSaver_drop_duplicates st) CSVSaver_drop_duplicates = CSVSaver_drop_duplicates st"
    by (cases "df st") (simp_all add: and_then_def CSVSaver_drop_duplicates_def keep_first_idem)
next
  assume a: "sorts_keys (argsort E) \<and> distinct_times st"
  show "and_then (CSVSaver_sort E ascending st) (CSVSaver_sort E ascending)
      = CSVSaver_sort E ascending st"
  proof (cases "df st")
    case None
    then show ?thesis by (simp add: and_then_def CSVSaver_sort_def)
  next
    case (Some rows)
    with a have d: "distinct (map rtime rows)"
      by (simp add: distinct_times_def)
    show ?thesis
    proof (cases "sort_values E ascending rows")
      case (Inl e)
      with Some show ?thesis by (simp add: and_then_def CSVSaver_sort_def)
    next
      case (Inr rows')
      from a d Inr have "sort_values E ascending rows' = Inr rows'"
        by (intro sort_values_idem [of E rows ascending]) simp_all
      with Some Inr show ?thesis
        by (simp add: and_then_def CSVSaver_sort_def)
    qed
  qed
next
  assume a: "sorts_keys (argsort E) \<and> CSVSaver_sort E ascending st = Inr st1"
  then obtain rows rows1 where rows: "df st = Some rows"
    and first: "sort_values E ascending rows = Inr rows1"
    and st1: "st1 = st\<lparr>df := Some rows1\<rparr>"
    by (auto simp: CSVSaver_sort_def split: option.splits sum.splits)
  from a first obtain rows2 where second: "sort_values E ascending rows1 = Inr rows2"
    and same: "map rtime rows2 = map rtime rows1" "mset rows2 = mset rows1"
    using sort_values_again [of E ascending rows rows1] by blast
  have "df st1 = Some rows1"
    using st1 by simp
  moreover have "CSVSaver_sort E ascending st1 = Inr (st1\<lparr>df := Some rows2\<rparr>)"
    using st1 second by (simp add: CSVSaver_sort_def)
  ultimately show "\<exists>rows1 rows2. df st1 = Some rows1 \<and>
      CSVSaver_sort E ascending st1 = Inr (st1\<lparr>df := Some rows2\<rparr>) \<and>
      map rtime rows2 = map rtime rows1 \<and> mset rows2 = mset rows1"
    using same by blast
qed

theorem drop_duplicates_idempotent_and_sort_of_distinct_times_witness:
  "sorts_keys (argsort example_env) \<and>
   distinct_times (table_saver [] None [3, 1, 2]) \<and>
   CSVSaver_sort example_env True (table_saver [] None [3, 1, 2])
     = Inr (table_saver [] None [1, 2, 3]) \<and>
   and_then (CSVSaver_sort example_env True (table_saver [] None [3, 1, 2]))
     (CSVSaver_sort example_env True) = Inr (table_saver [] None [1, 2, 3])"
proof -
  have h1: "sorts_keys (argsort example_env)"
    using sorts_keys_stable_argsort by (simp add: example_env_def)
  have h2: "distinct_times (table_saver [] None [3, 1, 2])"
    by (simp add: distinct_times_def table_saver_def rows_at_def)
  have once: "CSVSaver_sort example_env True (table_saver [] None [3, 1, 2])
      = Inr (table_saver [] None [1, 2, 3])"
    by (simp add: CSVSaver_sort_def sort_values_def nargsort_def example_env_def
        stable_argsort_def tkey_def is_TInt_def table_saver_def new_saver_def rows_at_def)
  from drop_duplicates_idempotent_and_sort_of_distinct_times
    [of "table_saver [] None [3, 1, 2]" example_env True "table_saver [] None [1, 2, 3]"] h1 h2
  have "and_then (CSVSaver_sort example_env True (table_saver [] None [3, 1, 2]))
      (CSVSaver_sort example_env True)
    = CSVSaver_sort example_env True (table_saver [] None [3, 1, 2])"
    by blast
  with h1 h2 once show ?thesis
    by simp
qed

text \<open>
  C9 as stated fails on a table with repeated time values. A routine that sorts, but
  not stably, is free to leave rows of equal time in another order each time it is
  called, and numpy's \<^verbatim>\<open>quicksort\<close> does so on runs of equal keys longer than its
  insertion-sort threshold. Here the table has twenty rows of the same time, told
  apart by their second cell, and the routine leaves rows of equal time in the reverse
  of their order: the second \<^verbatim>\<open>_sort\<close> changes the order the first has left.
\<close>

theorem sort_twice_reorders_equal_times_counterexample:
  "sorts_keys (argsort unstable_env) \<and>
   and_then (CSVSaver_sort unstable_env True
               ((new_saver [] None)\<lparr>df := Some (map (\<lambda>k. \<lparr>rtime = TInt 0, rest = k\<rparr>) [0 ..< 20])\<rparr>))
     (CSVSaver_sort unstable_env True)
   \<noteq> CSVSaver_sort unstable_env True
         ((new_saver [] None)\<lparr>df := Some (map (\<lambda>k. \<lparr>rtime = TInt 0, rest = k\<rparr>) [0 ..< 20])\<rparr>)"
proof
  show "sorts_keys (argsort unstable_env)"
    using sorts_keys_reversing_argsort by (simp add: unstable_env_def)
next
  let ?rows = "map (\<lambda>k. \<lparr>rtime = TInt 0, rest = k\<rparr>) [0 ..< 20] :: nat row list"
  have up: "[0 ..< 20] = [0, 1, 2, 3, 4, 5, 6, 7, 8, 9, 10, 11, 12, 13, 14, 15, 16, 17, 18, 19 :: nat]"
    by (simp add: upt_rec)
  have once: "CSVSaver_sort unstable_env True ((new_saver [] None)\<lparr>df := Some ?rows\<rparr>)
      = Inr ((new_saver [] None)\<lparr>df := Some (rev ?rows)\<rparr>)"
    unfolding up
    by (simp add: CSVSaver_sort_def sort_values_def nargsort_def unstable_env_def
        reversing_argsort_def tkey_def is_TInt_def new_saver_def)
  have twice: "CSVSaver_sort unstable_env True ((new_saver [] None)\<lparr>df := Some (rev ?rows)\<rparr>)
      = Inr ((new_saver [] None)\<lparr>df := Some ?rows\<rparr>)"
    unfolding up
    by (simp add: CSVSaver_sort_def sort_values_def nargsort_def unstable_env_def
        reversing_argsort_def tkey_def is_TInt_def new_saver_def)
  have "rev ?rows \<noteq> ?rows"
    unfolding up by simp
  with once twice
  show "and_then (CSVSaver_sort unstable_env True ((new_saver [] None)\<lparr>df := Some ?rows\<rparr>))
      (CSVSaver_sort unstable_env True)
    \<noteq> CSVSaver_sort unstable_env True ((new_saver [] None)\<lparr>df := Some ?rows\<rparr>)"
    by (simp add: and_then_def new_saver_def)
qed

subsection \<open>Unknown action names\<close>

lemma CSVSaver_actions_None:
  "CSVSaver_actions E a = None \<longleftrightarrow> a \<notin> set registered_ids"
  by (simp add: CSVSaver_actions_def registered_ids_def)

lemma CSVSaver_actions_unknown:
  "a \<notin> set registered_ids \<Longrightarrow> CSVSaver_actions E a = None"
  by (simp add: CSVSaver_actions_None)

lemma run_actions_unknown:
  "a \<notin> set registered_ids \<Longrightarrow>
   run_actions E (a # later) st =
     (fst (run_actions E later st), (''Cannot find action: '' @ a) # snd (run_actions E later st))"
  by (simp add: CSVSaver_actions_unknown split: prod.splits)

lemma run_actions_filter:
  "fst (run_actions E acts (st :: 'p saver)) =
   fst (run_actions E (filter (\<lambda>a. a \<in> set registered_ids) acts) st)"
proof (induction acts arbitrary: st)
  case Nil
  show ?case by simp
next
  case (Cons a acts)
  show ?case
  proof (cases "CSVSaver_actions E a :: ('p saver \<Rightarrow> 'p outcome) option")
    case None
    then have "a \<notin> set registered_ids"
      by (simp add: CSVSaver_actions_None)
    with Cons.IH [of st] show ?thesis
      by (simp add: run_actions_unknown del: run_actions.simps)
  next
    case (Some func)
    then have "a \<in> set registered_ids"
      by (cases "a \<in> set registered_ids") (simp_all add: CSVSaver_actions_unknown)
    with Some Cons.IH show ?thesis
      by (simp split: sum.splits)
  qed
qed

text \<open>
  C10. The names for which \<^verbatim>\<open>_actions.get\<close> finds nothing are those outside the six
  registered ids. The loop of \<^verbatim>\<open>save\<close> passes such a name with the warning
  \<^verbatim>\<open>Cannot find action: {action}\<close> and goes on with the actions after it on the same
  state; the outcome of \<^verbatim>\<open>save\<close> is that of running the registered names of the list
  in their order and then \<^verbatim>\<open>_save_file\<close>.
\<close>

theorem unknown_actions_are_skipped:
  "(CSVSaver_actions E a = None \<longleftrightarrow> a \<notin> set registered_ids) \<and>
   (a \<notin> set registered_ids \<longrightarrow>
      run_actions E (a # later) st' =
        (fst (run_actions E later st'),
         (''Cannot find action: '' @ a) # snd (run_actions E later st'))) \<and>
   fst (save E st processed_data) =
     and_then
       (fst (run_actions E (filter (\<lambda>a. a \<in> set registered_ids) (actions st))
          (append_data st processed_data)))
       (save_file E)"
proof -
  have "fst (save E st processed_data) =
      and_then (fst (run_actions E (actions st) (append_data st processed_data))) (save_file E)"
    by (simp add: save_def split: prod.splits)
  with run_actions_filter [of E "actions st" "append_data st processed_data"]
  show ?thesis
    by (simp add: CSVSaver_actions_None run_actions_unknown del: run_actions.simps)
qed

theorem unknown_actions_are_skipped_witness:
  "''bogus'' \<notin> set registered_ids \<and>
   save example_env (new_saver [''sort'', ''bogus'', ''drop_last''] None)
     [\<lparr>rtime = TInt 3, rest = ()\<rparr>, \<lparr>rtime = TInt 1, rest = ()\<rparr>,
      \<lparr>rtime = TInt 2, rest = ()\<rparr>, \<lparr>rtime = TInt 4, rest = ()\<rparr>]
   = (Inr \<lparr>actions = [''sort'', ''bogus'', ''drop_last''], timeframe = None,
           df = Some [\<lparr>rtime = TInt 1, rest = ()\<rparr>, \<lparr>rtime = TInt 2, rest = ()\<rparr>,
                      \<lparr>rtime = TInt 3, rest = ()\<rparr>],
           missing_times = None,
           written = [ChunkFile 0 [\<lparr>rtime = TInt 1, rest = ()\<rparr>, \<lparr>rtime = TInt 2, rest = ()\<rparr>],
                      ChunkFile 1 [\<lparr>rtime = TInt 3, rest = ()\<rparr>]]\<rparr>,
      [''Cannot find action: bogus''])"
  using unknown_actions_are_skipped [of example_env "''bogus''" "[''drop_last'']"
    "new_saver [''sort'', ''bogus'', ''drop_last''] None"
    "new_saver [''sort'', ''bogus'', ''drop_last''] None"
    "[\<lparr>rtime = TInt 3, rest = ()\<rparr>, \<lparr>rtime = TInt 1, rest = ()\<rparr>,
      \<lparr>rtime = TInt 2, rest = ()\<rparr>, \<lparr>rtime = TInt 4, rest = ()\<rparr>]"]
  by (simp add: registered_ids_def save_def new_saver_def append_data_def CSVSaver_actions_def
      CSVSaver_sort_def CSVSaver_drop_last_def sort_values_def nargsort_def stable_argsort_def
      tkey_def is_TInt_def and_then_def save_file_def example_env_def write_chunks.simps)

subsection \<open>The missing timestamps\<close>

lemma ceil_div_less_iff:
  fixes d s :: int
  assumes "0 < s"
  shows "int k < - ((- d) div s) \<longleftrightarrow> int k * s < d"
proof -
  define q where "q = (- d) div s"
  define r where "r = (- d) mod s"
  have eq: "- d = q * s + r"
    by (simp add: q_def r_def)
  have r: "0 \<le> r" "r < s"
    using assms by (simp_all add: r_def)
  show ?thesis
  proof
    assume "int k < - ((- d) div s)"
    then have "int k + q \<le> - 1"
      by (simp add: q_def)
    then have "(int k + q) * s \<le> - 1 * s"
      using assms by (intro mult_right_mono) simp_all
    then have "int k * s + q * s \<le> - s"
      by (simp add: algebra_simps)
    with eq r show "int k * s < d"
      by linarith
  next
    assume lt: "int k * s < d"
    show "int k < - ((- d) div s)"
    proof (rule ccontr)
      assume "\<not> int k < - ((- d) div s)"
      then have "0 \<le> int k + q"
        by (simp add: q_def)
      then have "0 \<le> (int k + q) * s"
        using assms by simp
      then have "0 \<le> int k * s + q * s"
        by (simp add: algebra_simps)
      with eq r lt show False
        by linarith
    qed
  qed
qed

lemma wrap_int64_id: "in_int64 x \<Longrightarrow> wrap_int64 x = x"
  by (simp add: in_int64_def wrap_int64_def)

text \<open>
  Where no \<^verbatim>\<open>int64\<close> computation wraps, \<^verbatim>\<open>np.arange\<close> with a positive step lists the
  values \<open>start + k * step\<close> below \<open>stop\<close>.
\<close>

lemma np_arange_set:
  assumes "0 < step" and "in_int64 start" and "in_int64 stop" and "in_int64 (stop - start)"
  shows "\<exists>xs. np_arange start stop step = Inr xs \<and> distinct xs \<and>
           set xs = {t. \<exists>k::nat. t = start + int k * step \<and> t < stop}"
proof -
  define n where "n = nat (- ((- (stop - start)) div step))"
  define f where "f = (\<lambda>i. start + int i * step)"
  have len: "k < n \<longleftrightarrow> f k < stop" for k
  proof -
    have "k < n \<longleftrightarrow> int k < - ((- (stop - start)) div step)"
      unfolding n_def by linarith
    also have "\<dots> \<longleftrightarrow> int k * step < stop - start"
      by (rule ceil_div_less_iff [OF assms(1)])
    also have "\<dots> \<longleftrightarrow> f k < stop"
      unfolding f_def by linarith
    finally show ?thesis .
  qed
  have fits: "wrap_int64 (f k) = f k" if "k < n" for k
  proof -
    have "f k < stop"
      using that len by simp
    moreover have "0 \<le> int k * step"
      using assms(1) by simp
    then have "start \<le> f k"
      unfolding f_def by linarith
    ultimately have "in_int64 (f k)"
      using assms(2,3) by (simp add: in_int64_def)
    then show ?thesis
      by (rule wrap_int64_id)
  qed
  have "inj f"
    using assms(1) unfolding f_def inj_def by simp
  then have "distinct (map f [0 ..< n])"
    by (simp add: distinct_map inj_on_def inj_def)
  moreover have "set (map f [0 ..< n]) = {t. \<exists>k::nat. t = f k \<and> t < stop}"
  proof (rule set_eqI)
    fix t
    show "t \<in> set (map f [0 ..< n]) \<longleftrightarrow> t \<in> {t. \<exists>k::nat. t = f k \<and> t < stop}"
    proof
      assume "t \<in> set (map f [0 ..< n])"
      then obtain k where "k < n" "t = f k" by auto
      with len [of k] show "t \<in> {t. \<exists>k::nat. t = f k \<and> t < stop}" by blast
    next
      assume "t \<in> {t. \<exists>k::nat. t = f k \<and> t < stop}"
      then obtain k where "t = f k" "f k < stop" by blast
      with len [of k] have "k < n" by simp
      with \<open>t = f k\<close> show "t \<in> set (map f [0 ..< n])" by simp
    qed
  qed
  moreover have "np_arange start stop step = Inr (map f [0 ..< n])"
  proof -
    have "map (\<lambda>i. wrap_int64 (f i)) [0 ..< n] = map f [0 ..< n]"
      by (rule map_cong [OF refl]) (simp add: fits)
    moreover have "wrap_int64 (stop - start) = stop - start"
      using assms(4) by (rule wrap_int64_id)
    ultimately show ?thesis
      using assms(1) unfolding np_arange_def n_def f_def by simp
  qed
  ultimately show ?thesis
    unfolding f_def by blast
qed

text \<open>
  What lines 138 to 146 compute on a column of \<^verbatim>\<open>int64\<close> values with a positive step,
  where \<open>max + step\<close> and \<open>max + step - min\<close> are \<^verbatim>\<open>int64\<close> values too: the timestamps
  \<open>min + k * step\<close> below \<open>max + step\<close> that are not in the column.
\<close>

lemma missing_timestamps_grid:
  assumes "0 < step" and "ts \<noteq> []" and "list_all in_int64 ts"
    and "Max (set ts) + step < 2 ^ 63" and "Max (set ts) + step - Min (set ts) < 2 ^ 63"
  shows "\<exists>ms. missing_timestamps step ts = Inr ms \<and> sorted ms \<and> distinct ms \<and>
           set ms = {t. \<exists>k::nat. t = Min (set ts) + int k * step \<and> t < Max (set ts) + step}
                      - set ts"
proof -
  have "Min (set ts) \<in> set ts" "Max (set ts) \<in> set ts"
    using assms(2) by simp_all
  with assms(3) have lo: "in_int64 (Min (set ts))" and hi: "in_int64 (Max (set ts))"
    by (simp_all add: list_all_iff)
  have le: "Min (set ts) \<le> Max (set ts)"
    using assms(2) by simp
  have stop: "in_int64 (Max (set ts) + step)"
    using hi assms(1,4) by (simp add: in_int64_def)
  have span: "in_int64 (Max (set ts) + step - Min (set ts))"
    using le assms(1,5) by (simp add: in_int64_def)
  have step: "in_int64 step"
    using le assms(1,5) by (simp add: in_int64_def)
  from np_arange_set [OF assms(1) lo stop span]
  obtain xs where xs: "np_arange (Min (set ts)) (Max (set ts) + step) step = Inr xs"
    and set: "set xs = {t. \<exists>k::nat. t = Min (set ts) + int k * step \<and> t < Max (set ts) + step}"
    by blast
  define ms where "ms = sort (remdups (filter (\<lambda>t. t \<notin> set ts) xs))"
  have "missing_timestamps step ts = Inr ms"
    unfolding missing_timestamps_def ms_def Let_def using step xs
    by (simp add: wrap_int64_id [OF stop])
  moreover have "set ms = set xs - set ts"
    unfolding ms_def by auto
  moreover have "sorted ms" "distinct ms"
    unfolding ms_def by simp_all
  ultimately show ?thesis
    unfolding set by blast
qed

text \<open>Where the step divides \<open>max - min\<close> these are the grid points from \<open>min\<close> to \<open>max\<close>.\<close>

lemma aligned_grid:
  fixes lo hi step :: int
  assumes "0 < step" "step dvd (hi - lo)"
  shows "{t. \<exists>k::nat. t = lo + int k * step \<and> t < hi + step}
       = {t. \<exists>k::nat. t = lo + int k * step \<and> t \<le> hi}"
proof -
  from assms(2) obtain m where m: "hi - lo = step * m"
    by (auto simp: dvd_def)
  have "lo + int k * step < hi + step \<longleftrightarrow> lo + int k * step \<le> hi" for k
  proof -
    have "lo + int k * step < hi + step \<longleftrightarrow> int k * step < (m + 1) * step"
      using m by (simp add: algebra_simps)
    also have "\<dots> \<longleftrightarrow> int k < m + 1"
      using assms(1) by (simp only: mult_less_cancel_right_pos)
    also have "\<dots> \<longleftrightarrow> int k \<le> m"
      by linarith
    also have "\<dots> \<longleftrightarrow> int k * step \<le> m * step"
      using assms(1) by (simp only: mult_le_cancel_right_pos)
    also have "\<dots> \<longleftrightarrow> lo + int k * step \<le> hi"
      using m by (simp add: algebra_simps)
    finally show ?thesis .
  qed
  then show ?thesis
    by blast
qed

lemma missing_timestamps_aligned:
  assumes "0 < step" and "ts \<noteq> []" and "list_all in_int64 ts"
    and "Max (set ts) + step < 2 ^ 63" and "Max (set ts) + step - Min (set ts) < 2 ^ 63"
    and "step dvd (Max (set ts) - Min (set ts))"
  shows "\<exists>ms. missing_timestamps step ts = Inr ms \<and>
           set ms = {t. \<exists>k::nat. t = Min (set ts) + int k * step \<and> t \<le> Max (set ts)} - set ts"
  using missing_timestamps_grid [OF assms(1-5)] aligned_grid [OF assms(1,6)]
  by auto

text \<open>The example of the specification: rows at 0, 100 and 300 with the step 100.\<close>

lemma missing_timestamps_example: "missing_timestamps 100 [0, 100, 300] = Inr [200]"
  by code_simp

lemma timeframe_100s: "timeframe_to_timestamp example_env ''100s'' = Inr 100000"
  by (simp add: timeframe_to_timestamp_def TIMEFRAME_MAPPING_def example_env_def decimal_int_def)

lemma example_env_fields:
  "py_int example_env = decimal_int" "strftime_utc example_env = (\<lambda>t. Inl OSError)"
  "argsort example_env = stable_argsort"
  "ALLOW_MAX_MISSING_TIMESTAMPS example_env = 3" "CSV_CHUNK_SIZE example_env = 2"
  by (simp_all add: example_env_def)

lemma astype_int64_rows_at:
  "list_all in_int64 ts \<Longrightarrow> astype_int64 E (map rtime (rows_at ts)) = Inr ts"
  by (simp add: astype_int64_def column_dtype_def rows_at_def list_all_iff is_TInt_def the_TInt_def comp_def)

lemma initialize_example:
  "initialize_missing_times example_env (table_saver [] (Some ''100s'') [0, 100000, 300000])
   = Inr (True, (table_saver [] (Some ''100s'') [0, 100000, 300000])
                  \<lparr>missing_times := Some [200000]\<rparr>)"
proof -
  have "missing_timestamps 100000 [0, 100000, 300000] = Inr [200000]"
    by code_simp
  moreover have "astype_int64 example_env (map rtime (rows_at [0, 100000, 300000]))
      = Inr [0, 100000, 300000]"
    by (rule astype_int64_rows_at) (simp add: in_int64_def)
  ultimately show ?thesis
    by (simp add: initialize_missing_times_def table_saver_def new_saver_def
        timeframe_100s set_times_def example_env_fields Let_def rows_at_def)
qed

text \<open>
  C3. The expected timestamps are \<^verbatim>\<open>np.arange(min_time, max_time + delta_timestamp,
  delta_timestamp)\<close>: they start at \<open>min\<close> and go on to below \<open>max + step\<close>, so that where
  the step does not divide \<open>max - min\<close> the last of them lies beyond \<open>max\<close>, outside the
  set \<open>{min, min + step, ..., max}\<close>. For rows at 0 and 250000 with the cadence \<^verbatim>\<open>100s\<close>
  the list that \<^verbatim>\<open>_initialize_missing_times\<close> caches for \<^verbatim>\<open>save_missing_times\<close> and
  \<^verbatim>\<open>fix_integrity\<close> holds 300000, which is later than every row of the table; it is not
  the expected set minus the present values.
\<close>

theorem missing_times_beyond_max:
  "initialize_missing_times example_env (table_saver [] (Some ''100s'') [0, 250000])
     = Inr (True, (table_saver [] (Some ''100s'') [0, 250000])
                    \<lparr>missing_times := Some [100000, 200000, 300000]\<rparr>) \<and>
   Max (set [0, 250000 :: int]) < 300000 \<and>
   set [100000, 200000, 300000 :: int]
     \<noteq> {t. \<exists>k::nat. t = Min (set [0, 250000]) + int k * 100000 \<and> t \<le> Max (set [0, 250000])}
         - set [0, 250000]"
proof (intro conjI)
  have "missing_timestamps 100000 [0, 250000] = Inr [100000, 200000, 300000]"
    by code_simp
  moreover have "astype_int64 example_env (map rtime (rows_at [0, 250000])) = Inr [0, 250000]"
    by (rule astype_int64_rows_at) (simp add: in_int64_def)
  ultimately
  show "initialize_missing_times example_env (table_saver [] (Some ''100s'') [0, 250000])
     = Inr (True, (table_saver [] (Some ''100s'') [0, 250000])
                    \<lparr>missing_times := Some [100000, 200000, 300000]\<rparr>)"
    by (simp add: initialize_missing_times_def table_saver_def new_saver_def
        timeframe_100s set_times_def example_env_fields Let_def rows_at_def)
next
  show "Max (set [0, 250000 :: int]) < 300000"
    by simp
next
  have "(300000::int) \<in> set [100000, 200000, 300000]"
    by simp
  moreover have "(300000::int) \<notin>
      {t. \<exists>k::nat. t = Min (set [0, 250000]) + int k * 100000 \<and> t \<le> Max (set [0, 250000])}
        - set [0, 250000]"
    by simp
  ultimately show "set [100000, 200000, 300000 :: int]
     \<noteq> {t. \<exists>k::nat. t = Min (set [0, 250000]) + int k * 100000 \<and> t \<le> Max (set [0, 250000])}
         - set [0, 250000]"
    by metis
qed

text \<open>
  The action then fills the gap it has found beyond the table: \<^verbatim>\<open>_fix_data_integrity\<close>
  appends a row at 300000, a copy of the row at 250000.
\<close>

lemma fix_integrity_beyond_max:
  "CSVSaver_fix_data_integrity example_env
     ((new_saver [] (Some ''100s''))
        \<lparr>df := Some [\<lparr>rtime = TInt 0, rest = ''a''\<rparr>, \<lparr>rtime = TInt 250000, rest = ''b''\<rparr>]\<rparr>)
   = Inr ((new_saver [] (Some ''100s''))
        \<lparr>df := Some [\<lparr>rtime = TInt 0, rest = ''a''\<rparr>, \<lparr>rtime = TInt 100000, rest = ''a''\<rparr>,
                     \<lparr>rtime = TInt 200000, rest = ''b''\<rparr>, \<lparr>rtime = TInt 250000, rest = ''b''\<rparr>,
                     \<lparr>rtime = TInt 300000, rest = ''b''\<rparr>],
         missing_times := Some [100000, 200000, 300000]\<rparr>)"
proof -
  let ?rows = "[\<lparr>rtime = TInt 0, rest = ''a''\<rparr>, \<lparr>rtime = TInt 250000, rest = ''b''\<rparr>]"
  have "missing_timestamps 100000 [0, 250000] = Inr [100000, 200000, 300000]"
    by code_simp
  then have init: "initialize_missing_times example_env
     ((new_saver [] (Some ''100s''))\<lparr>df := Some ?rows\<rparr>)
    = Inr (True, (new_saver [] (Some ''100s''))
        \<lparr>df := Some ?rows, missing_times := Some [100000, 200000, 300000]\<rparr>)"
    by (simp add: initialize_missing_times_def new_saver_def astype_int64_def column_dtype_def is_TInt_def
        the_TInt_def in_int64_def timeframe_100s set_times_def example_env_fields Let_def)
  have new: "new_data ?rows [100000, 200000, 300000]
    = Inr [\<lparr>rtime = TInt 100000, rest = ''a''\<rparr>, \<lparr>rtime = TInt 200000, rest = ''b''\<rparr>,
           \<lparr>rtime = TInt 300000, rest = ''b''\<rparr>]"
    by (simp add: closest_data_def searchsorted_def bisect_left.simps candidates_of_def
        distance_at_def column_dtype_def is_TInt_def the_TInt_def py_min_by_fst_def in_int64_def wrap_int64_def Let_def)
  show ?thesis
    by (simp add: CSVSaver_fix_data_integrity_def init new append_data_def
        CSVSaver_sort_def sort_values_def nargsort_def example_env_fields stable_argsort_def
        tkey_def is_TInt_def del: new_data.simps)
qed

subsection \<open>The tie rule of the gap fill\<close>

text \<open>
  On a sorted column of integers the bisection of \<open>searchsorted\<close> ends at the first
  position whose element is not less than the key.
\<close>

lemma bisect_left_sorted:
  assumes "lo \<le> hi" and "hi \<le> length xs"
    and "\<forall>j<lo. xs ! j < key"
    and "\<forall>j. hi \<le> j \<and> j < length xs \<longrightarrow> key \<le> xs ! j"
    and "sorted xs"
  shows "\<exists>p. bisect_left (map TInt xs) key lo hi = Inr p \<and> p \<le> length xs \<and>
           (\<forall>j<p. xs ! j < key) \<and> (\<forall>j. p \<le> j \<and> j < length xs \<longrightarrow> key \<le> xs ! j)"
  using assms
proof (induction "hi - lo" arbitrary: lo hi rule: less_induct)
  case less
  show ?case
  proof (cases "lo < hi")
    case False
    with less.prems have "lo = hi" by simp
    with less.prems show ?thesis
      by (subst bisect_left.simps) auto
  next
    case True
    define mid where "mid = lo + (hi - lo) div 2"
    have mid: "lo \<le> mid" "mid < hi" "mid < length xs"
      using True less.prems(2) by (simp_all add: mid_def)
    show ?thesis
    proof (cases "xs ! mid < key")
      case lt: True
      have below: "\<forall>j<mid + 1. xs ! j < key"
      proof (intro allI impI)
        fix j assume "j < mid + 1"
        then have "j \<le> mid" by simp
        with \<open>sorted xs\<close> mid(3) have "xs ! j \<le> xs ! mid"
          by (simp add: sorted_nth_mono)
        with lt show "xs ! j < key" by simp
      qed
      have "hi - (mid + 1) < hi - lo"
        using mid by simp
      from less.hyps [OF this _ less.prems(2) below less.prems(4) less.prems(5)] mid
      have "\<exists>p. bisect_left (map TInt xs) key (mid + 1) hi = Inr p \<and> p \<le> length xs \<and>
           (\<forall>j<p. xs ! j < key) \<and> (\<forall>j. p \<le> j \<and> j < length xs \<longrightarrow> key \<le> xs ! j)"
        by simp
      moreover have "bisect_left (map TInt xs) key lo hi
          = bisect_left (map TInt xs) key (mid + 1) hi"
        using True lt mid by (subst bisect_left.simps) (simp add: mid_def Let_def)
      ultimately show ?thesis by simp
    next
      case ge: False
      have above: "\<forall>j. mid \<le> j \<and> j < length xs \<longrightarrow> key \<le> xs ! j"
      proof (intro allI impI)
        fix j assume "mid \<le> j \<and> j < length xs"
        with \<open>sorted xs\<close> have "xs ! mid \<le> xs ! j"
          by (simp add: sorted_nth_mono)
        with ge show "key \<le> xs ! j" by simp
      qed
      have "mid - lo < hi - lo"
        using mid by simp
      from less.hyps [OF this mid(1) _ less.prems(3) above less.prems(5)] mid
      have "\<exists>p. bisect_left (map TInt xs) key lo mid = Inr p \<and> p \<le> length xs \<and>
           (\<forall>j<p. xs ! j < key) \<and> (\<forall>j. p \<le> j \<and> j < length xs \<longrightarrow> key \<le> xs ! j)"
        by simp
      moreover have "bisect_left (map TInt xs) key lo hi
          = bisect_left (map TInt xs) key lo mid"
        using True ge mid by (subst bisect_left.simps) (simp add: mid_def Let_def)
      ultimately show ?thesis by simp
    qed
  qed
qed

lemma searchsorted_between:
  assumes "sorted xs" and "0 < i" and "i < length xs"
    and "xs ! (i - 1) < key" and "key \<le> xs ! i"
  shows "searchsorted (map TInt xs) key = Inr i"
proof -
  from bisect_left_sorted [of 0 "length xs" xs key] assms(1)
  obtain p where p: "bisect_left (map TInt xs) key 0 (length xs) = Inr p"
    and below: "\<forall>j<p. xs ! j < key"
    and above: "\<forall>j. p \<le> j \<and> j < length xs \<longrightarrow> key \<le> xs ! j"
    by auto
  have "\<not> p < i"
  proof
    assume "p < i"
    then have "p \<le> i - 1" "i - 1 < length xs"
      using assms(3) by simp_all
    with above have "key \<le> xs ! (i - 1)" by blast
    with assms(4) show False by simp
  qed
  moreover have "\<not> i < p"
  proof
    assume "i < p"
    with below have "xs ! i < key" by blast
    with assms(5) show False by simp
  qed
  ultimately have "p = i" by simp
  with p show ?thesis
    by (simp add: searchsorted_def)
qed

lemma searchsorted_total:
  assumes "sorted xs"
  shows "\<exists>p. searchsorted (map TInt xs) key = Inr p \<and> p \<le> length xs"
  using bisect_left_sorted [of 0 "length xs" xs key] assms
  by (auto simp: searchsorted_def)

lemma fold_min_in_set:
  "foldl (\<lambda>best x. if fst x < fst best then x else best) c cs \<in> set (c # cs)"
proof (induction cs arbitrary: c)
  case Nil
  show ?case by simp
next
  case (Cons a cs)
  from Cons [of "if fst a < fst c then a else c"] show ?case
    by (auto split: if_splits)
qed

lemma column_dtype_int64: "list_all in_int64 xs \<Longrightarrow> column_dtype (map TInt xs) = Int64"
  by (simp add: column_dtype_def list_all_iff is_TInt_def the_TInt_def)

lemma distance_at_int64:
  assumes "j < length xs" and "list_all in_int64 xs"
  shows "distance_at (map TInt xs) j m = Inr [(wrap_int64 \<bar>wrap_int64 (xs ! j - m)\<bar>, j)]"
  using assms by (simp add: distance_at_def column_dtype_int64)

text \<open>
  On a sorted column of \<^verbatim>\<open>int64\<close> values that is not empty, the loop body finds a row
  for every missing timestamp.
\<close>

lemma closest_data_total:
  assumes "map rtime rows = map TInt xs" and "sorted xs" and "xs \<noteq> []"
    and "list_all in_int64 xs"
  shows "\<exists>j<length rows. closest_data rows m = Inr ((rows ! j)\<lparr>rtime := TInt m\<rparr>)"
proof -
  have len: "length rows = length xs"
    using assms(1) by (metis length_map)
  from searchsorted_total [OF assms(2), of m]
  obtain p where p: "searchsorted (map TInt xs) m = Inr p" and ple: "p \<le> length xs"
    by blast
  define before where
    "before = (if p > 0 then [(wrap_int64 \<bar>wrap_int64 (xs ! (p - 1) - m)\<bar>, p - 1)] else [])"
  define after where
    "after = (if p < length xs then [(wrap_int64 \<bar>wrap_int64 (xs ! p - m)\<bar>, p)] else [])"
  have b: "(if p > 0 then distance_at (map TInt xs) (p - 1) m else Inr []) = Inr before"
    using ple assms(4) by (simp add: before_def distance_at_int64)
  have a: "(if p < length (map TInt xs) then distance_at (map TInt xs) p m else Inr [])
      = Inr after"
    using assms(4) by (simp add: after_def distance_at_int64)
  have cands: "candidates_of (map TInt xs) p m = Inr (before @ after)"
    unfolding candidates_of_def b a by simp
  have nonempty: "before @ after \<noteq> []"
    using assms(3) ple by (cases "p = 0") (simp_all add: before_def after_def)
  then obtain c cs where cs: "before @ after = c # cs"
    by (cases "before @ after") simp_all
  define best where "best = foldl (\<lambda>best x. if fst x < fst best then x else best) c cs"
  have min: "py_min_by_fst (before @ after) = Inr best"
    by (simp add: py_min_by_fst_def cs best_def)
  have "best \<in> set (before @ after)"
    unfolding cs best_def by (rule fold_min_in_set)
  then have "snd best < length xs"
    using ple by (auto simp: before_def after_def split: if_splits)
  moreover have "closest_data rows m = Inr ((rows ! snd best)\<lparr>rtime := TInt m\<rparr>)"
    by (simp add: closest_data_def assms(1) p cands min)
  ultimately show ?thesis
    using len by auto
qed

lemma new_data_Inr:
  "new_data rows ms = Inr synthesized \<Longrightarrow>
   length synthesized = length ms \<and>
   (\<forall>k<length ms. closest_data rows (ms ! k) = Inr (synthesized ! k))"
proof (induction ms arbitrary: synthesized)
  case Nil
  then show ?case by simp
next
  case (Cons m ms)
  from Cons.prems obtain r rs where r: "closest_data rows m = Inr r"
    and rs: "new_data rows ms = Inr rs" and s: "synthesized = r # rs"
    by (auto split: sum.splits)
  from Cons.IH [OF rs] have len: "length rs = length ms"
    and each: "\<forall>k<length ms. closest_data rows (ms ! k) = Inr (rs ! k)"
    by simp_all
  show ?case
  proof (intro conjI allI impI)
    show "length synthesized = length (m # ms)"
      using len s by simp
  next
    fix k assume "k < length (m # ms)"
    then show "closest_data rows ((m # ms) ! k) = Inr (synthesized ! k)"
      using r each s by (cases k) simp_all
  qed
qed

lemma new_data_total:
  assumes "map rtime rows = map TInt xs" and "sorted xs" and "xs \<noteq> []"
    and "list_all in_int64 xs"
  shows "\<exists>synthesized. new_data rows ms = Inr synthesized"
proof (induction ms)
  case Nil
  show ?case by simp
next
  case (Cons m ms)
  from closest_data_total [OF assms, of m] obtain r where "closest_data rows m = Inr r"
    by blast
  with Cons show ?case
    by auto
qed

text \<open>
  The tie: the missing timestamp lies strictly between two neighbouring times of the
  sorted column, at the same distance from both. The distances are \<^verbatim>\<open>int64\<close> values, the
  candidate of the earlier neighbour comes first, and \<^verbatim>\<open>min\<close> keeps it.
\<close>

lemma closest_data_tie:
  assumes "map rtime rows = map TInt xs" and "sorted xs" and "list_all in_int64 xs"
    and "0 < i" and "i < length xs"
    and "xs ! (i - 1) < missing_ts" and "missing_ts < xs ! i"
    and "missing_ts - xs ! (i - 1) = xs ! i - missing_ts"
  shows "closest_data rows missing_ts = Inr ((rows ! (i - 1))\<lparr>rtime := TInt missing_ts\<rparr>)"
proof -
  define d where "d = xs ! i - missing_ts"
  have lo: "in_int64 (xs ! (i - 1))" and hi: "in_int64 (xs ! i)"
    using assms(3,5) by (simp_all add: list_all_length)
  have d: "0 < d" "xs ! (i - 1) - missing_ts = - d" "xs ! i - missing_ts = d"
    using assms(7,8) by (simp_all add: d_def)
  have "2 * d = xs ! i - xs ! (i - 1)"
    using assms(8) by (simp add: d_def)
  with lo hi have "2 * d < 2 ^ 64"
    by (simp add: in_int64_def)
  then have fits: "in_int64 d" "in_int64 (- d)"
    using d(1) by (simp_all add: in_int64_def)
  have pos: "searchsorted (map TInt xs) missing_ts = Inr i"
    using assms(2,4-7) by (intro searchsorted_between) simp_all
  have before: "distance_at (map TInt xs) (i - 1) missing_ts = Inr [(d, i - 1)]"
    using assms(3,4,5) d fits by (simp add: distance_at_int64 wrap_int64_id)
  have after: "distance_at (map TInt xs) i missing_ts = Inr [(d, i)]"
    using assms(3,5) d fits by (simp add: distance_at_int64 wrap_int64_id)
  have cands: "candidates_of (map TInt xs) i missing_ts = Inr [(d, i - 1), (d, i)]"
    using assms(4,5) before after by (simp add: candidates_of_def)
  have "py_min_by_fst [(d, i - 1), (d, i)] = Inr (d, i - 1)"
    by (simp add: py_min_by_fst_def)
  with pos cands assms(1) show ?thesis
    by (simp add: closest_data_def)
qed

text \<open>
  C8. \<^verbatim>\<open>_initialize_missing_times\<close> has returned \<^verbatim>\<open>True\<close> with the list \<open>ms\<close> of missing
  timestamps and the table \<open>rows\<close>, whose time column holds \<^verbatim>\<open>int64\<close> values sorted
  ascending. One of the missing timestamps lies strictly between two neighbouring
  times of the column, at the same distance from both. Then \<^verbatim>\<open>_fix_data_integrity\<close>
  returns; it has synthesized one row for each missing timestamp, carrying that
  timestamp; the row it has synthesized for the timestamp of the tie is the row of the
  earlier neighbour with the time cell overwritten and every other cell kept; and the
  table it leaves holds the rows it had and the synthesized ones, that row among them
  (in the order the sorting routine gives).
\<close>

theorem fix_integrity_tie_clones_predecessor:
  assumes "sorts_keys (argsort E)"
    and "initialize_missing_times E st = Inr (True, st1)"
    and "missing_times st1 = Some ms" and "df st1 = Some rows"
    and "map rtime rows = map TInt xs" and "sorted xs" and "list_all in_int64 xs"
    and "missing_ts \<in> set ms"
    and "0 < i" and "i < length xs"
    and "xs ! (i - 1) < missing_ts" and "missing_ts < xs ! i"
    and "missing_ts - xs ! (i - 1) = xs ! i - missing_ts"
  shows "\<exists>synthesized rows'.
           new_data rows ms = Inr synthesized \<and>
           CSVSaver_fix_data_integrity E st = Inr (st1\<lparr>df := Some rows'\<rparr>) \<and>
           mset rows' = mset rows + mset synthesized \<and>
           length synthesized = length ms \<and>
           (\<forall>k<length ms.
              rtime (synthesized ! k) = TInt (ms ! k) \<and>
              (ms ! k = missing_ts \<longrightarrow>
                 synthesized ! k = (rows ! (i - 1))\<lparr>rtime := TInt missing_ts\<rparr>)) \<and>
           (rows ! (i - 1))\<lparr>rtime := TInt missing_ts\<rparr> \<in> set rows'"
proof -
  have nonempty: "xs \<noteq> []"
    using assms(10) by auto
  from new_data_total [OF assms(5,6) nonempty assms(7), of ms]
  obtain synthesized where new: "new_data rows ms = Inr synthesized"
    by blast
  from new_data_Inr [OF new] have len: "length synthesized = length ms"
    and each: "\<forall>k<length ms. closest_data rows (ms ! k) = Inr (synthesized ! k)"
    by simp_all
  have tie: "closest_data rows missing_ts = Inr ((rows ! (i - 1))\<lparr>rtime := TInt missing_ts\<rparr>)"
    using assms(5,6,7,9-13) by (rule closest_data_tie)
  have row: "rtime (synthesized ! k) = TInt (ms ! k) \<and>
      (ms ! k = missing_ts \<longrightarrow> synthesized ! k = (rows ! (i - 1))\<lparr>rtime := TInt missing_ts\<rparr>)"
    if k: "k < length ms" for k
  proof
    from closest_data_total [OF assms(5,6) nonempty assms(7), of "ms ! k"]
    obtain j where "closest_data rows (ms ! k) = Inr ((rows ! j)\<lparr>rtime := TInt (ms ! k)\<rparr>)"
      by blast
    with each k have "synthesized ! k = (rows ! j)\<lparr>rtime := TInt (ms ! k)\<rparr>"
      by simp
    then show "rtime (synthesized ! k) = TInt (ms ! k)"
      by simp
  next
    show "ms ! k = missing_ts \<longrightarrow> synthesized ! k = (rows ! (i - 1))\<lparr>rtime := TInt missing_ts\<rparr>"
      using each k tie by auto
  qed
  from assms(8) obtain k where k: "k < length ms" "ms ! k = missing_ts"
    by (auto simp: in_set_conv_nth)
  with row [of k] len have clone: "(rows ! (i - 1))\<lparr>rtime := TInt missing_ts\<rparr> \<in> set synthesized"
    by (metis nth_mem)
  have "ms \<noteq> []"
    using assms(8) by auto
  with len have filled: "synthesized \<noteq> []" "length ms \<noteq> 0"
    by auto
  have ints: "list_all (\<lambda>r. is_TInt (rtime r)) (rows @ synthesized)"
  proof -
    have "is_TInt (rtime r)" if "r \<in> set rows" for r
    proof -
      from that have "rtime r \<in> set (map rtime rows)" by simp
      then show ?thesis
        unfolding assms(5) by (auto simp: is_TInt_def)
    qed
    moreover have "is_TInt (rtime r)" if "r \<in> set synthesized" for r
    proof -
      from that len obtain k where "k < length ms" "r = synthesized ! k"
        by (auto simp: in_set_conv_nth)
      with row [of k] show ?thesis
        by (simp add: is_TInt_def)
    qed
    ultimately show ?thesis
      by (auto simp: list_all_iff)
  qed
  define rows' where
    "rows' = map (\<lambda>i. (rows @ synthesized) ! i) (nargsort E True (map rtime (rows @ synthesized)))"
  have sorted_rows: "sort_values E True (rows @ synthesized) = Inr rows'"
    using ints unfolding sort_values_def rows'_def by simp
  from sort_values_Inr(2) [OF assms(1) sorted_rows]
  have perm: "mset rows' = mset rows + mset synthesized"
    by simp
  then have "set rows' = set rows \<union> set synthesized"
    by (metis mset_eq_setD set_append mset_append)
  with clone have there: "(rows ! (i - 1))\<lparr>rtime := TInt missing_ts\<rparr> \<in> set rows'"
    by simp
  have "CSVSaver_fix_data_integrity E st = Inr (st1\<lparr>df := Some rows'\<rparr>)"
    using assms(2,3,4) new filled sorted_rows
    by (simp add: CSVSaver_fix_data_integrity_def append_data_def CSVSaver_sort_def)
  with new perm len row there show ?thesis
    by blast
qed

lemma timeframe_50s: "timeframe_to_timestamp example_env ''50s'' = Inr 50000"
  by (simp add: timeframe_to_timestamp_def TIMEFRAME_MAPPING_def example_env_def decimal_int_def)

lemma initialize_tie_example:
  "initialize_missing_times example_env
     ((new_saver [] (Some ''50s''))
        \<lparr>df := Some [\<lparr>rtime = TInt 100000, rest = ''a''\<rparr>, \<lparr>rtime = TInt 200000, rest = ''b''\<rparr>]\<rparr>)
   = Inr (True, (new_saver [] (Some ''50s''))
        \<lparr>df := Some [\<lparr>rtime = TInt 100000, rest = ''a''\<rparr>, \<lparr>rtime = TInt 200000, rest = ''b''\<rparr>],
         missing_times := Some [150000]\<rparr>)"
proof -
  have "missing_timestamps 50000 [100000, 200000] = Inr [150000]"
    by code_simp
  then show ?thesis
    by (simp add: initialize_missing_times_def new_saver_def astype_int64_def column_dtype_def is_TInt_def
        the_TInt_def in_int64_def timeframe_50s set_times_def example_env_fields Let_def)
qed

lemma fix_integrity_tie_example:
  "CSVSaver_fix_data_integrity example_env
     ((new_saver [] (Some ''50s''))
        \<lparr>df := Some [\<lparr>rtime = TInt 100000, rest = ''a''\<rparr>, \<lparr>rtime = TInt 200000, rest = ''b''\<rparr>]\<rparr>)
   = Inr ((new_saver [] (Some ''50s''))
        \<lparr>df := Some [\<lparr>rtime = TInt 100000, rest = ''a''\<rparr>, \<lparr>rtime = TInt 150000, rest = ''a''\<rparr>,
                     \<lparr>rtime = TInt 200000, rest = ''b''\<rparr>],
         missing_times := Some [150000]\<rparr>)"
proof -
  have new: "new_data [\<lparr>rtime = TInt 100000, rest = ''a''\<rparr>, \<lparr>rtime = TInt 200000, rest = ''b''\<rparr>]
      [150000] = Inr [\<lparr>rtime = TInt 150000, rest = ''a''\<rparr>]"
    by (simp add: closest_data_def searchsorted_def bisect_left.simps candidates_of_def
        distance_at_def column_dtype_def is_TInt_def the_TInt_def py_min_by_fst_def in_int64_def wrap_int64_def Let_def)
  show ?thesis
    by (simp add: CSVSaver_fix_data_integrity_def initialize_tie_example new append_data_def
        CSVSaver_sort_def sort_values_def nargsort_def example_env_fields stable_argsort_def
        tkey_def is_TInt_def del: new_data.simps)
qed

theorem fix_integrity_tie_clones_predecessor_witness:
  "sorts_keys (argsort example_env) \<and>
   initialize_missing_times example_env
     ((new_saver [] (Some ''50s''))
        \<lparr>df := Some [\<lparr>rtime = TInt 100000, rest = ''a''\<rparr>, \<lparr>rtime = TInt 200000, rest = ''b''\<rparr>]\<rparr>)
     = Inr (True, (new_saver [] (Some ''50s''))
        \<lparr>df := Some [\<lparr>rtime = TInt 100000, rest = ''a''\<rparr>, \<lparr>rtime = TInt 200000, rest = ''b''\<rparr>],
         missing_times := Some [150000]\<rparr>) \<and>
   sorted [100000, 200000 :: int] \<and> list_all in_int64 [100000, 200000] \<and>
   [100000, 200000] ! (1 - 1) < (150000::int) \<and> (150000::int) < [100000, 200000] ! 1 \<and>
   (150000::int) - [100000, 200000] ! (1 - 1) = [100000, 200000] ! 1 - 150000 \<and>
   new_data [\<lparr>rtime = TInt 100000, rest = ''a''\<rparr>, \<lparr>rtime = TInt 200000, rest = ''b''\<rparr>] [150000]
     = Inr [\<lparr>rtime = TInt 150000, rest = ''a''\<rparr>] \<and>
   CSVSaver_fix_data_integrity example_env
     ((new_saver [] (Some ''50s''))
        \<lparr>df := Some [\<lparr>rtime = TInt 100000, rest = ''a''\<rparr>, \<lparr>rtime = TInt 200000, rest = ''b''\<rparr>]\<rparr>)
     = Inr ((new_saver [] (Some ''50s''))
        \<lparr>df := Some [\<lparr>rtime = TInt 100000, rest = ''a''\<rparr>, \<lparr>rtime = TInt 150000, rest = ''a''\<rparr>,
                     \<lparr>rtime = TInt 200000, rest = ''b''\<rparr>],
         missing_times := Some [150000]\<rparr>)"
proof -
  let ?rows = "[\<lparr>rtime = TInt 100000, rest = ''a''\<rparr>, \<lparr>rtime = TInt 200000, rest = ''b''\<rparr>]"
  let ?st = "(new_saver [] (Some ''50s''))\<lparr>df := Some ?rows\<rparr>"
  let ?st1 = "(new_saver [] (Some ''50s''))\<lparr>df := Some ?rows, missing_times := Some [150000]\<rparr>"
  have h1: "sorts_keys (argsort example_env)"
    using sorts_keys_stable_argsort by (simp add: example_env_fields)
  have h3: "missing_times ?st1 = Some [150000]" and h4: "df ?st1 = Some ?rows"
    by simp_all
  have h5: "map rtime ?rows = map TInt [100000, 200000]"
    and h6: "sorted [100000, 200000 :: int]"
    and h7: "list_all in_int64 [100000, 200000]"
    and h8: "(150000::int) \<in> set [150000]"
    and h9: "(0::nat) < 1" and h10: "1 < length [100000, 200000 :: int]"
    and h11: "[100000, 200000] ! (1 - 1) < (150000::int)"
    and h12: "(150000::int) < [100000, 200000] ! 1"
    and h13: "(150000::int) - [100000, 200000] ! (1 - 1) = [100000, 200000] ! 1 - 150000"
    by (simp_all add: in_int64_def)
  from fix_integrity_tie_clones_predecessor
    [OF h1 initialize_tie_example h3 h4 h5 h6 h7 h8 h9 h10 h11 h12 h13]
  obtain synthesized where new: "new_data ?rows [150000] = Inr synthesized"
    and len: "length synthesized = length [150000 :: int]"
    and row: "\<forall>k<length [150000 :: int].
        rtime (synthesized ! k) = TInt ([150000] ! k) \<and>
        ([150000] ! k = (150000::int) \<longrightarrow>
           synthesized ! k = (?rows ! (1 - 1))\<lparr>rtime := TInt 150000\<rparr>)"
    by blast
  from len obtain r where "synthesized = [r]"
    by (cases synthesized) simp_all
  with row have "synthesized = [\<lparr>rtime = TInt 150000, rest = ''a''\<rparr>]"
    by simp
  with new h1 h6 h7 h11 h12 h13 initialize_tie_example fix_integrity_tie_example
  show ?thesis
    by blast
qed

text \<open>
  The example of the specification in its own numbers, rows at 100 and 200 with the
  missing time 150: no cadence has a step of 50 milliseconds, so the list of missing
  times is taken as cached.
\<close>

lemma fix_integrity_tie_literal_example:
  "CSVSaver_fix_data_integrity example_env
     ((new_saver [] None)
        \<lparr>df := Some [\<lparr>rtime = TInt 100, rest = ''a''\<rparr>, \<lparr>rtime = TInt 200, rest = ''b''\<rparr>],
         missing_times := Some [150]\<rparr>)
   = Inr ((new_saver [] None)
        \<lparr>df := Some [\<lparr>rtime = TInt 100, rest = ''a''\<rparr>, \<lparr>rtime = TInt 150, rest = ''a''\<rparr>,
                     \<lparr>rtime = TInt 200, rest = ''b''\<rparr>],
         missing_times := Some [150]\<rparr>)"
proof -
  have init: "initialize_missing_times example_env
     ((new_saver [] None)
        \<lparr>df := Some [\<lparr>rtime = TInt 100, rest = ''a''\<rparr>, \<lparr>rtime = TInt 200, rest = ''b''\<rparr>],
         missing_times := Some [150]\<rparr>)
    = Inr (True, (new_saver [] None)
        \<lparr>df := Some [\<lparr>rtime = TInt 100, rest = ''a''\<rparr>, \<lparr>rtime = TInt 200, rest = ''b''\<rparr>],
         missing_times := Some [150]\<rparr>)"
    by (simp add: initialize_missing_times_def)
  have new: "new_data [\<lparr>rtime = TInt 100, rest = ''a''\<rparr>, \<lparr>rtime = TInt 200, rest = ''b''\<rparr>]
      [150] = Inr [\<lparr>rtime = TInt 150, rest = ''a''\<rparr>]"
    by (simp add: closest_data_def searchsorted_def bisect_left.simps candidates_of_def
        distance_at_def column_dtype_def is_TInt_def the_TInt_def py_min_by_fst_def in_int64_def wrap_int64_def Let_def)
  show ?thesis
    by (simp add: CSVSaver_fix_data_integrity_def init new append_data_def
        CSVSaver_sort_def sort_values_def nargsort_def example_env_fields stable_argsort_def
        tkey_def is_TInt_def del: new_data.simps)
qed

subsection \<open>Too many missing timestamps\<close>

text \<open>
  An action that returns with no list of missing times cached has written no file, and
  found none cached: only \<^verbatim>\<open>_save_missing_times\<close> writes, and only from a cached list.
\<close>

lemma initialize_missing_times_Inr:
  assumes "initialize_missing_times E s = Inr (ok, s')"
  shows "written s' = written s \<and> (missing_times s' = None \<longrightarrow> s' = s \<and> \<not> ok)"
  using assms
  by (auto simp: initialize_missing_times_def Let_def
      split: if_splits option.splits sum.splits)

lemma CSVSaver_sort_fields:
  "CSVSaver_sort E asc s = Inr s' \<Longrightarrow>
   written s' = written s \<and> missing_times s' = missing_times s"
  by (auto simp: CSVSaver_sort_def split: option.splits sum.splits)

lemma fix_data_integrity_written:
  assumes "CSVSaver_fix_data_integrity E s = Inr s'" and "missing_times s' = None"
  shows "written s' = written s"
proof (cases "initialize_missing_times E s")
  case (Inl e)
  with assms(1) show ?thesis
    by (simp add: CSVSaver_fix_data_integrity_def)
next
  case (Inr r)
  obtain ok s1 where r: "r = (ok, s1)" by (cases r)
  from initialize_missing_times_Inr [OF Inr [unfolded r]]
  have w: "written s1 = written s" and n: "missing_times s1 = None \<longrightarrow> s1 = s \<and> \<not> ok"
    by simp_all
  show ?thesis
  proof (cases ok)
    case False
    with Inr r assms(1) w show ?thesis
      by (simp add: CSVSaver_fix_data_integrity_def)
  next
    case True
    with n obtain ms where ms: "missing_times s1 = Some ms" by auto
    with Inr r True assms w show ?thesis
      by (auto simp: CSVSaver_fix_data_integrity_def append_data_def
          split: if_splits option.splits sum.splits dest!: CSVSaver_sort_fields)
  qed
qed

lemma save_missing_times_written:
  assumes "CSVSaver_save_missing_times E s = Inr s'" and "missing_times s' = None"
  shows "written s' = written s"
proof (cases "initialize_missing_times E s")
  case (Inl e)
  with assms(1) show ?thesis
    by (simp add: CSVSaver_save_missing_times_def)
next
  case (Inr r)
  obtain ok s1 where r: "r = (ok, s1)" by (cases r)
  from initialize_missing_times_Inr [OF Inr [unfolded r]]
  have w: "written s1 = written s" and n: "missing_times s1 = None \<longrightarrow> s1 = s \<and> \<not> ok"
    by simp_all
  show ?thesis
  proof (cases ok)
    case False
    with Inr r assms(1) w show ?thesis
      by (simp add: CSVSaver_save_missing_times_def)
  next
    case True
    with n obtain ms where ms: "missing_times s1 = Some ms" by auto
    with Inr r True assms w show ?thesis
      by (auto simp: CSVSaver_save_missing_times_def Let_def
          split: if_splits option.splits sum.splits prod.splits)
  qed
qed

lemma action_written:
  assumes "CSVSaver_actions E a = Some func" and "func s = Inr s'"
    and "missing_times s' = None"
  shows "written s' = written s \<and> missing_times s = None"
proof -
  have uncached: "missing_times s = None"
  proof (rule ccontr)
    assume "missing_times s \<noteq> None"
    then obtain ms where ms: "missing_times s = Some ms" by auto
    then have init: "initialize_missing_times E s = Inr (True, s)"
      by (simp add: initialize_missing_times_def)
    from assms(1) consider
        "func = CSVSaver_sort E True" | "func = CSVSaver_drop_duplicates"
      | "func = CSVSaver_drop_last" | "func = CSVSaver_transfer_time E"
      | "func = CSVSaver_fix_data_integrity E" | "func = CSVSaver_save_missing_times E"
      by (auto simp: CSVSaver_actions_def split: if_splits)
    then have "missing_times s' \<noteq> None"
      using assms(2) ms init
      by cases
        (auto simp: CSVSaver_sort_def CSVSaver_drop_duplicates_def CSVSaver_drop_last_def
          CSVSaver_transfer_time_def CSVSaver_fix_data_integrity_def
          CSVSaver_save_missing_times_def append_data_def Let_def
          split: if_splits option.splits sum.splits prod.splits)
    with assms(3) show False by simp
  qed
  from assms(1) consider
      "func = CSVSaver_sort E True" | "func = CSVSaver_drop_duplicates"
    | "func = CSVSaver_drop_last" | "func = CSVSaver_transfer_time E"
    | "func = CSVSaver_fix_data_integrity E" | "func = CSVSaver_save_missing_times E"
    by (auto simp: CSVSaver_actions_def split: if_splits)
  then have "written s' = written s"
  proof cases
    case 5
    with assms(2,3) show ?thesis by (simp add: fix_data_integrity_written)
  next
    case 6
    with assms(2,3) show ?thesis by (simp add: save_missing_times_written)
  qed (use assms(2) in \<open>auto simp: CSVSaver_sort_def CSVSaver_drop_duplicates_def
      CSVSaver_drop_last_def CSVSaver_transfer_time_def split: option.splits sum.splits\<close>)
  with uncached show ?thesis by simp
qed

lemma run_actions_written:
  "run_actions E acts (s :: 'p saver) = (Inr s1, ws) \<Longrightarrow> missing_times s1 = None \<Longrightarrow>
   written s1 = written s"
proof (induction acts arbitrary: s ws)
  case Nil
  then show ?case by simp
next
  case (Cons a acts)
  show ?case
  proof (cases "CSVSaver_actions E a :: ('p saver \<Rightarrow> 'p outcome) option")
    case None
    with Cons.prems(1) obtain ws' where "run_actions E acts s = (Inr s1, ws')"
      by (auto split: prod.splits)
    from Cons.IH [OF this Cons.prems(2)] show ?thesis .
  next
    case (Some func)
    show ?thesis
    proof (cases "func s")
      case (Inl e)
      with Some Cons.prems(1) show ?thesis by simp
    next
      case (Inr s')
      with Some Cons.prems(1) have run: "run_actions E acts s' = (Inr s1, ws)"
        by simp
      from Cons.IH [OF run Cons.prems(2)] have w: "written s1 = written s'" .
      from run Cons.prems(2) have "missing_times s' = None"
      proof (induction acts arbitrary: s' ws)
        case Nil
        then show ?case by simp
      next
        case (Cons b acts)
        show ?case
        proof (cases "CSVSaver_actions E b :: ('p saver \<Rightarrow> 'p outcome) option")
          case None
          with Cons.prems(1) obtain ws' where "run_actions E acts s' = (Inr s1, ws')"
            by (auto split: prod.splits)
          from Cons.IH [OF this Cons.prems(2)] show ?thesis .
        next
          case (Some g)
          show ?thesis
          proof (cases "g s'")
            case (Inl e)
            with Some Cons.prems(1) show ?thesis by simp
          next
            case (Inr s'')
            with Some Cons.prems(1) have "run_actions E acts s'' = (Inr s1, ws)"
              by simp
            from Cons.IH [OF this Cons.prems(2)] have "missing_times s'' = None" .
            from action_written [OF Some Inr this] show ?thesis by simp
          qed
        qed
      qed
      from action_written [OF Some Inr this] w show ?thesis by simp
    qed
  qed
qed

lemma run_actions_append:
  "run_actions E pre (s :: 'p saver) = (Inr s1, ws) \<Longrightarrow>
   fst (run_actions E (pre @ later) s) = fst (run_actions E later s1)"
proof (induction pre arbitrary: s ws)
  case Nil
  then show ?case by simp
next
  case (Cons a pre)
  show ?case
  proof (cases "CSVSaver_actions E a :: ('p saver \<Rightarrow> 'p outcome) option")
    case None
    with Cons.prems obtain ws' where "run_actions E pre s = (Inr s1, ws')"
      by (auto split: prod.splits)
    from Cons.IH [OF this] None show ?thesis
      by (auto split: prod.splits)
  next
    case (Some func)
    show ?thesis
    proof (cases "func s")
      case (Inl e)
      with Some Cons.prems show ?thesis by simp
    next
      case (Inr s')
      with Some Cons.prems have "run_actions E pre s' = (Inr s1, ws)"
        by simp
      from Cons.IH [OF this] Some Inr show ?thesis by simp
    qed
  qed
qed

text \<open>What \<^verbatim>\<open>astype\<close> and the assignment of its result do to the table.\<close>

lemma convert_objects_length: "convert_objects E vs = Inr ts \<Longrightarrow> length ts = length vs"
proof (induction vs arbitrary: ts)
  case Nil
  then show ?case by simp
next
  case (Cons v vs)
  then show ?case
    by (auto split: option.splits if_splits sum.splits)
qed

lemma astype_int64_length: "astype_int64 E vs = Inr ts \<Longrightarrow> length ts = length vs"
  by (auto simp: astype_int64_def convert_objects_length split: dtype.splits)

lemma set_times_columns:
  assumes "length ts = length rows"
  shows "length (set_times rows ts) = length rows"
    and "map rest (set_times rows ts) = map rest rows"
    and "map rtime (set_times rows ts) = map TInt ts"
proof -
  show "length (set_times rows ts) = length rows"
    using assms by (simp add: set_times_def)
  have "map rest (set_times rows ts) = map (\<lambda>(r, t). rest r) (zip rows ts)"
    by (simp add: set_times_def case_prod_unfold)
  also have "\<dots> = map rest (map fst (zip rows ts))"
    by (simp add: case_prod_unfold)
  also have "\<dots> = map rest rows"
    using assms by simp
  finally show "map rest (set_times rows ts) = map rest rows" .
  have "map rtime (set_times rows ts) = map (\<lambda>(r, t). TInt t) (zip rows ts)"
    by (simp add: set_times_def case_prod_unfold)
  also have "\<dots> = map TInt (map snd (zip rows ts))"
    by (simp add: case_prod_unfold)
  also have "\<dots> = map TInt ts"
    using assms by simp
  finally show "map rtime (set_times rows ts) = map TInt ts" .
qed

lemma set_times_id: "map rtime rows = map TInt ts \<Longrightarrow> set_times rows ts = rows"
proof (induction rows arbitrary: ts)
  case Nil
  then show ?case by (simp add: set_times_def)
next
  case (Cons r rows)
  then obtain t ts' where ts: "ts = t # ts'" by (cases ts) auto
  with Cons.prems have "rtime r = TInt t" "map rtime rows = map TInt ts'"
    by simp_all
  with Cons.IH [of ts'] ts show ?case
    by (simp add: set_times_def)
qed

text \<open>A column that holds \<^verbatim>\<open>int64\<close> values already is assigned as it is.\<close>

lemma astype_int64_unchanged:
  assumes "list_all (\<lambda>r. is_TInt (rtime r) \<and> in_int64 (the_TInt (rtime r))) rows"
    and "astype_int64 E (map rtime rows) = Inr ts"
  shows "set_times rows ts = rows"
proof -
  have ints: "list_all is_TInt (map rtime rows)"
    using assms(1) by (simp add: list_all_iff)
  have "column_dtype (map rtime rows) = Int64"
    using assms(1) by (simp add: column_dtype_def list_all_iff)
  with assms(2) have ts: "ts = map the_TInt (map rtime rows)"
    by (simp add: astype_int64_def)
  have "map rtime rows = map TInt ts"
    unfolding ts using ints
    by (auto simp: list_all_iff is_TInt_def the_TInt_def split: tval.splits)
  then show ?thesis
    by (rule set_times_id)
qed

lemma initialize_missing_times_exceeds:
  assumes "missing_times s = None" and "timeframe s = Some tf"
    and "timeframe_to_timestamp E tf = Inr step"
    and "df s = Some rows" and "rows \<noteq> []"
    and "astype_int64 E (map rtime rows) = Inr ts"
    and "missing_timestamps step ts = Inr ms"
    and "ms \<noteq> []"
    and "ALLOW_MAX_MISSING_TIMESTAMPS E < int (length ms)"
  shows "initialize_missing_times E s
       = Inl (ExceedMaxMissingPointsError (length ms), s\<lparr>df := Some (set_times rows ts)\<rparr>)"
  using assms by (simp add: initialize_missing_times_def Let_def)

text \<open>
  C6 as stated fails in two ways. A time column of numeric strings is rewritten before
  the exception is raised: \<^verbatim>\<open>astype(np.int64)\<close> is assigned to the column at line 136,
  the count is compared with the ceiling at line 152, so the table at the failure holds
  integers where \<^verbatim>\<open>save\<close> had appended strings. And an empty set of missing
  timestamps returns at line 148, before the comparison: with the ceiling \<open>-1\<close> and a
  table without gaps the count 0 exceeds the ceiling, and \<^verbatim>\<open>save\<close> raises nothing and
  writes its file.
\<close>

theorem save_exceeding_ceiling_counterexample:
  "fst (save example_env (new_saver [''fix_integrity''] (Some ''100s''))
          [\<lparr>rtime = TStr ''0'', rest = ()\<rparr>, \<lparr>rtime = TStr ''1000000'', rest = ()\<rparr>])
     = Inl (ExceedMaxMissingPointsError 9,
            (new_saver [''fix_integrity''] (Some ''100s''))
              \<lparr>df := Some [\<lparr>rtime = TInt 0, rest = ()\<rparr>, \<lparr>rtime = TInt 1000000, rest = ()\<rparr>]\<rparr>) \<and>
   append_data (new_saver [''fix_integrity''] (Some ''100s''))
       [\<lparr>rtime = TStr ''0'', rest = ()\<rparr>, \<lparr>rtime = TStr ''1000000'', rest = ()\<rparr>]
     \<noteq> (new_saver [''fix_integrity''] (Some ''100s''))
         \<lparr>df := Some [\<lparr>rtime = TInt 0, rest = ()\<rparr>, \<lparr>rtime = TInt 1000000, rest = ()\<rparr>]\<rparr> \<and>
   missing_timestamps 100000 [0, 100000] = Inr [] \<and>
   ALLOW_MAX_MISSING_TIMESTAMPS (example_env\<lparr>ALLOW_MAX_MISSING_TIMESTAMPS := - 1\<rparr>)
     < int (length ([] :: int list)) \<and>
   fst (save (example_env\<lparr>ALLOW_MAX_MISSING_TIMESTAMPS := - 1\<rparr>)
          (new_saver [''fix_integrity''] (Some ''100s'')) (rows_at [0, 100000]))
     = Inr ((new_saver [''fix_integrity''] (Some ''100s''))
              \<lparr>df := Some (rows_at [0, 100000]), missing_times := Some [],
               written := [ChunkFile 0 (rows_at [0, 100000])]\<rparr>)"
proof (intro conjI)
  let ?E = "example_env\<lparr>ALLOW_MAX_MISSING_TIMESTAMPS := - 1\<rparr>"
  have tf: "timeframe_to_timestamp ?E ''100s'' = Inr 100000"
    by (simp add: timeframe_to_timestamp_def TIMEFRAME_MAPPING_def example_env_def
        decimal_int_def)
  have nine: "missing_timestamps 100000 [0, 1000000]
      = Inr [100000, 200000, 300000, 400000, 500000, 600000, 700000, 800000, 900000]"
    by code_simp
  have conv: "astype_int64 example_env [TStr ''0'', TStr ''1000000''] = Inr [0, 1000000]"
    by (simp add: astype_int64_def column_dtype_def is_TInt_def int_of_tval_def example_env_fields
        decimal_int_def in_int64_def)
  show none: "missing_timestamps 100000 [0, 100000] = Inr []"
    by code_simp
  show "fst (save example_env (new_saver [''fix_integrity''] (Some ''100s''))
          [\<lparr>rtime = TStr ''0'', rest = ()\<rparr>, \<lparr>rtime = TStr ''1000000'', rest = ()\<rparr>])
     = Inl (ExceedMaxMissingPointsError 9,
            (new_saver [''fix_integrity''] (Some ''100s''))
              \<lparr>df := Some [\<lparr>rtime = TInt 0, rest = ()\<rparr>, \<lparr>rtime = TInt 1000000, rest = ()\<rparr>]\<rparr>)"
    by (simp add: save_def new_saver_def append_data_def CSVSaver_actions_def
        CSVSaver_fix_data_integrity_def initialize_missing_times_def conv nine timeframe_100s
        set_times_def example_env_fields and_then_def Let_def)
  show "append_data (new_saver [''fix_integrity''] (Some ''100s''))
       [\<lparr>rtime = TStr ''0'', rest = ()\<rparr>, \<lparr>rtime = TStr ''1000000'', rest = ()\<rparr>]
     \<noteq> (new_saver [''fix_integrity''] (Some ''100s''))
         \<lparr>df := Some [\<lparr>rtime = TInt 0, rest = ()\<rparr>, \<lparr>rtime = TInt 1000000, rest = ()\<rparr>]\<rparr>"
    by (simp add: append_data_def new_saver_def)
  show "ALLOW_MAX_MISSING_TIMESTAMPS ?E < int (length ([] :: int list))"
    by simp
  have "astype_int64 ?E (map rtime (rows_at [0, 100000])) = Inr [0, 100000]"
    by (rule astype_int64_rows_at) (simp add: in_int64_def)
  then show "fst (save ?E (new_saver [''fix_integrity''] (Some ''100s'')) (rows_at [0, 100000]))
     = Inr ((new_saver [''fix_integrity''] (Some ''100s''))
              \<lparr>df := Some (rows_at [0, 100000]), missing_times := Some [],
               written := [ChunkFile 0 (rows_at [0, 100000])]\<rparr>)"
    by (simp add: save_def new_saver_def append_data_def CSVSaver_actions_def
        CSVSaver_fix_data_integrity_def initialize_missing_times_def none tf
        set_times_def example_env_fields and_then_def save_file_def write_chunks.simps Let_def
        rows_at_def)
qed

text \<open>
  C6, as the code has it. \<^verbatim>\<open>save\<close> has appended its rows and run the actions before a
  gap action (\<^verbatim>\<open>save_missing_times\<close> or \<^verbatim>\<open>fix_integrity\<close>) without an exception,
  reaching the state \<open>st1\<close> with the table \<open>rows\<close> and no list of missing times cached.
  The gap action converts the time column to \<^verbatim>\<open>int64\<close>, to the values \<open>ts\<close>, and computes
  the missing timestamps \<open>ms\<close> from it; they are not none and more than the ceiling. Then
  \<^verbatim>\<open>save\<close> raises \<^verbatim>\<open>ExceedMaxMissingPointsError\<close> with the number of missing
  timestamps. The saver is left in the state \<open>st1\<close> with the converted time column: the
  table has the rows it had, in their order and with their other cells, no row is
  synthesized, and a time column that held \<^verbatim>\<open>int64\<close> values already is as it was. No
  file has been written since \<^verbatim>\<open>save\<close> was called.
\<close>

theorem save_raises_above_ceiling:
  assumes "actions st = pre @ a # post"
    and "a = ''save_missing_times'' \<or> a = ''fix_integrity''"
    and "run_actions E pre (append_data st processed_data) = (Inr st1, ws)"
    and "missing_times st1 = None" and "timeframe st1 = Some tf"
    and "timeframe_to_timestamp E tf = Inr step"
    and "df st1 = Some rows" and "rows \<noteq> []"
    and "astype_int64 E (map rtime rows) = Inr ts"
    and "missing_timestamps step ts = Inr ms"
    and "ms \<noteq> []"
    and "ALLOW_MAX_MISSING_TIMESTAMPS E < int (length ms)"
  shows "fst (save E st processed_data)
           = Inl (ExceedMaxMissingPointsError (length ms),
                  st1\<lparr>df := Some (set_times rows ts)\<rparr>) \<and>
         length (set_times rows ts) = length rows \<and>
         map rest (set_times rows ts) = map rest rows \<and>
         map rtime (set_times rows ts) = map TInt ts \<and>
         (list_all (\<lambda>r. is_TInt (rtime r) \<and> in_int64 (the_TInt (rtime r))) rows \<longrightarrow>
            set_times rows ts = rows) \<and>
         written (st1\<lparr>df := Some (set_times rows ts)\<rparr>) = written st"
proof -
  let ?st2 = "st1\<lparr>df := Some (set_times rows ts)\<rparr>"
  have init: "initialize_missing_times E st1
      = Inl (ExceedMaxMissingPointsError (length ms), ?st2)"
    using assms(4-12) by (rule initialize_missing_times_exceeds)
  have "fst (run_actions E (a # post) st1)
      = Inl (ExceedMaxMissingPointsError (length ms), ?st2)"
    using assms(2) init
    by (auto simp: CSVSaver_actions_def CSVSaver_save_missing_times_def
        CSVSaver_fix_data_integrity_def)
  with run_actions_append [OF assms(3), of "a # post"] assms(1)
  have "fst (run_actions E (actions st) (append_data st processed_data))
      = Inl (ExceedMaxMissingPointsError (length ms), ?st2)"
    by simp
  then have raised: "fst (save E st processed_data)
      = Inl (ExceedMaxMissingPointsError (length ms), ?st2)"
    by (auto simp: save_def and_then_def split: prod.splits)
  have files: "written ?st2 = written st"
    using run_actions_written [OF assms(3,4)] by (simp add: append_data_def)
  have len: "length ts = length rows"
    using astype_int64_length [OF assms(9)] by simp
  have same: "set_times rows ts = rows"
    if "list_all (\<lambda>r. is_TInt (rtime r) \<and> in_int64 (the_TInt (rtime r))) rows"
    using that assms(9) by (rule astype_int64_unchanged)
  from raised files set_times_columns [OF len] same show ?thesis
    by blast
qed

theorem save_raises_above_ceiling_witness:
  "actions (new_saver [''drop_duplicates'', ''sort'', ''fix_integrity'', ''drop_last'']
              (Some ''100s'') :: unit saver)
     = [''drop_duplicates'', ''sort''] @ ''fix_integrity'' # [''drop_last''] \<and>
   run_actions example_env [''drop_duplicates'', ''sort'']
     (append_data
        (new_saver [''drop_duplicates'', ''sort'', ''fix_integrity'', ''drop_last''] (Some ''100s''))
        (rows_at [1000000, 0]))
     = (Inr (table_saver [''drop_duplicates'', ''sort'', ''fix_integrity'', ''drop_last'']
               (Some ''100s'') [0, 1000000]), []) \<and>
   astype_int64 example_env (map rtime (rows_at [0, 1000000])) = Inr [0, 1000000] \<and>
   missing_timestamps 100000 [0, 1000000]
     = Inr [100000, 200000, 300000, 400000, 500000, 600000, 700000, 800000, 900000] \<and>
   ALLOW_MAX_MISSING_TIMESTAMPS example_env = 3 \<and>
   fst (save example_env
     (new_saver [''drop_duplicates'', ''sort'', ''fix_integrity'', ''drop_last''] (Some ''100s''))
     (rows_at [1000000, 0]))
     = Inl (ExceedMaxMissingPointsError 9,
            table_saver [''drop_duplicates'', ''sort'', ''fix_integrity'', ''drop_last'']
              (Some ''100s'') [0, 1000000]) \<and>
   written (table_saver [''drop_duplicates'', ''sort'', ''fix_integrity'', ''drop_last'']
              (Some ''100s'') [0, 1000000]) = []"
proof -
  let ?acts = "[''drop_duplicates'', ''sort'', ''fix_integrity'', ''drop_last'']"
  let ?st = "new_saver ?acts (Some ''100s'') :: unit saver"
  let ?st1 = "table_saver ?acts (Some ''100s'') [0, 1000000]"
  let ?ms = "[100000, 200000, 300000, 400000, 500000, 600000, 700000, 800000, 900000 :: int]"
  have h1: "actions ?st = [''drop_duplicates'', ''sort''] @ ''fix_integrity'' # [''drop_last'']"
    by (simp add: new_saver_def)
  have h2: "''fix_integrity'' = ''save_missing_times'' \<or> ''fix_integrity'' = ''fix_integrity''"
    by simp
  have h3: "run_actions example_env [''drop_duplicates'', ''sort'']
      (append_data ?st (rows_at [1000000, 0])) = (Inr ?st1, [])"
    by (simp add: CSVSaver_actions_def CSVSaver_drop_duplicates_def CSVSaver_sort_def
        sort_values_def nargsort_def example_env_fields stable_argsort_def tkey_def is_TInt_def
        append_data_def new_saver_def table_saver_def rows_at_def)
  have h4: "missing_times ?st1 = None" and h5: "timeframe ?st1 = Some ''100s''"
    and h7: "df ?st1 = Some (rows_at [0, 1000000])"
    by (simp_all add: table_saver_def new_saver_def)
  have h8: "rows_at [0, 1000000] \<noteq> []"
    by (simp add: rows_at_def)
  have h9: "astype_int64 example_env (map rtime (rows_at [0, 1000000])) = Inr [0, 1000000]"
    by (rule astype_int64_rows_at) (simp add: in_int64_def)
  have h10: "missing_timestamps 100000 [0, 1000000] = Inr ?ms"
    by code_simp
  have h11: "?ms \<noteq> []"
    and h12: "ALLOW_MAX_MISSING_TIMESTAMPS example_env < int (length ?ms)"
    by (simp_all add: example_env_fields)
  have same: "?st1\<lparr>df := Some (set_times (rows_at [0, 1000000]) [0, 1000000])\<rparr> = ?st1"
    by (simp add: table_saver_def set_times_def rows_at_def)
  from save_raises_above_ceiling [OF h1 h2 h3 h4 h5 timeframe_100s h7 h8 h9 h10 h11 h12]
  have "fst (save example_env ?st (rows_at [1000000, 0]))
      = Inl (ExceedMaxMissingPointsError 9, ?st1)" and "written ?st1 = written ?st"
    by (simp_all only: same list.size One_nat_def) simp_all
  with h1 h3 h9 h10 show ?thesis
    by (simp add: example_env_fields new_saver_def)
qed

section \<open>Properties of the planner\<close>

text \<open>Rounds that end in \<open>Retry\<close> only count the bound down.\<close>

lemma probe_loop_retries:
  assumes "\<forall>i<n. probe_round fetch mapf since until w1 w2 self (k + i) = Retry"
    and "\<forall>i<n. a \<noteq> int i"
  shows "probe_loop fetch mapf since until w1 w2 self a k
       = probe_loop fetch mapf since until w1 w2 self (a - int n) (k + n)"
  using assms
proof (induction n arbitrary: a k)
  case 0
  show ?case by simp
next
  case (Suc n)
  have first: "probe_round fetch mapf since until w1 w2 self k = Retry" and "a \<noteq> 0"
    using Suc.prems(1) [rule_format, of 0] Suc.prems(2) [rule_format, of 0] by simp_all
  then have "probe_loop fetch mapf since until w1 w2 self a k
      = probe_loop fetch mapf since until w1 w2 self (a - 1) (k + 1)"
    by (subst probe_loop.simps) simp
  also have "\<dots> = probe_loop fetch mapf since until w1 w2 self (a - 1 - int n) (k + 1 + n)"
  proof (rule Suc.IH)
    show "\<forall>i<n. probe_round fetch mapf since until w1 w2 self (k + 1 + i) = Retry"
      using Suc.prems(1) [rule_format, of "Suc i" for i] by simp
    show "\<forall>i<n. a - 1 \<noteq> int i"
    proof (intro allI impI)
      fix i assume "i < n"
      then have "Suc i < Suc n" by simp
      with Suc.prems(2) have "a \<noteq> int (Suc i)" by blast
      then show "a - 1 \<noteq> int i" by simp
    qed
  qed
  finally show ?case by (simp add: algebra_simps)
qed

text \<open>
  When each of the rounds the bound allows ends in the \<^verbatim>\<open>else\<close> branch, the loop runs out
  and \<^verbatim>\<open>RuntimeError("Failed to generate task, maximum attempts exhausted")\<close> is raised
  with the task untouched.
\<close>

lemma initialize_exhausted:
  assumes "LOCAL_THREADS_RATIO C \<noteq> 0" and "MAX_ATTEMPT_TIMES C = int n"
    and "\<forall>k<n. probe_round fetch mapf since until thread_count
           (max 1 (thread_count div LOCAL_THREADS_RATIO C)) self k = Retry"
  shows "initialize C since until thread_count fetch mapf self
       = Some (Inl (RuntimeError_exhausted, self))"
proof -
  let ?w2 = "max 1 (thread_count div LOCAL_THREADS_RATIO C)"
  have "probe_loop fetch mapf since until thread_count ?w2 self (int n) 0
      = probe_loop fetch mapf since until thread_count ?w2 self (int n - int n) (0 + n)"
    using assms(3) by (intro probe_loop_retries) auto
  also have "\<dots> = Some (Inl (RuntimeError_exhausted, self))"
    by (subst probe_loop.simps) simp
  finally show ?thesis
    using assms(1,2) by (simp add: initialize_def)
qed

lemma plan_from_zero_delta:
  assumes "hd rows = TInt t # cs" and "last rows = TInt t # cs'"
  shows "plan_from rows until w1 w2 self = Inl (ValueError ''range() arg 3 must not be zero'')"
  using assms by (simp add: plan_from_def first_cell_def abs_difference_def py_range_def)

text \<open>
  C5. The rounds before the \<open>n\<close>-th have asked for another attempt and the bound
  allows the \<open>n\<close>-th. Its page is \<^verbatim>\<open>NORMAL\<close> and, after the mapping if there is one, not
  empty, and its first and last rows have the same integer in their first cell. Then
  \<^verbatim>\<open>delta\<close> is 0, \<^verbatim>\<open>range(since, until, 0)\<close> raises \<^verbatim>\<open>ValueError\<close>, and
  \<^verbatim>\<open>initialize\<close> ends with that exception: no timestamp list is built and the fields of
  the task are as they were.
\<close>

theorem zero_delta_is_rejected:
  assumes "LOCAL_THREADS_RATIO C \<noteq> 0"
    and "int n < MAX_ATTEMPT_TIMES C"
    and "\<forall>k<n. probe_round fetch mapf since until thread_count
           (max 1 (thread_count div LOCAL_THREADS_RATIO C)) self k = Retry"
    and "fetch n since = (raw, NORMAL)"
    and "(case mapf of Some f \<Rightarrow> f n raw | None \<Rightarrow> Inr raw) = Inr (Some rows)"
    and "rows \<noteq> []" and "hd rows = TInt t # cs" and "last rows = TInt t # cs'"
  shows "initialize C since until thread_count fetch mapf self
       = Some (Inl (ValueError ''range() arg 3 must not be zero'', self))"
proof -
  let ?w2 = "max 1 (thread_count div LOCAL_THREADS_RATIO C)"
  let ?a = "MAX_ATTEMPT_TIMES C"
  have round: "probe_round fetch mapf since until thread_count ?w2 self n
      = Raise (ValueError ''range() arg 3 must not be zero'')"
    using assms(4-6) plan_from_zero_delta [OF assms(7,8)]
    by (simp add: probe_round_def)
  have "probe_loop fetch mapf since until thread_count ?w2 self ?a 0
      = probe_loop fetch mapf since until thread_count ?w2 self (?a - int n) (0 + n)"
    using assms(2,3) by (intro probe_loop_retries) auto
  also have "\<dots> = Some (Inl (ValueError ''range() arg 3 must not be zero'', self))"
    using assms(2) round by (subst probe_loop.simps) simp
  finally show ?thesis
    using assms(1) by (simp add: initialize_def)
qed

text \<open>A round asks for another attempt when the flag is \<^verbatim>\<open>ERROR\<close> or the page is empty, provided the mapping has not raised.\<close>

lemma probe_round_Retry:
  assumes "fetch k since = (raw, flag)"
    and "(case mapf of Some f \<Rightarrow> f k raw | None \<Rightarrow> Inr raw) = Inr data"
    and "flag = ERROR \<or> data = Some []"
  shows "probe_round fetch mapf since until w1 w2 self k = Retry"
  using assms by (auto simp: probe_round_def)

theorem zero_delta_is_rejected_witness:
  "LOCAL_THREADS_RATIO example_config \<noteq> 0 \<and>
   int 1 < MAX_ATTEMPT_TIMES example_config \<and>
   probe_round one_row_fetch None 0 1000 4
     (max 1 (4 div LOCAL_THREADS_RATIO example_config)) new_task 0 = Retry \<and>
   one_row_fetch 1 0 = (Some [[TInt 5, TStr ''x'']], NORMAL) \<and>
   hd [[TInt 5, TStr ''x'']] = last [[TInt 5, TStr ''x'']] \<and>
   initialize example_config 0 1000 4 one_row_fetch None new_task
     = Some (Inl (ValueError ''range() arg 3 must not be zero'', new_task)) \<and>
   timestamp_list new_task = None \<and> online_worker_count new_task = None \<and>
   local_worker_count new_task = None"
proof -
  have h1: "LOCAL_THREADS_RATIO example_config \<noteq> 0"
    and h2: "int 1 < MAX_ATTEMPT_TIMES example_config"
    by (simp_all add: example_config_def)
  have r0: "probe_round one_row_fetch None 0 1000 4
      (max 1 (4 div LOCAL_THREADS_RATIO example_config)) new_task 0 = Retry"
    by (simp add: probe_round_def one_row_fetch_def)
  then have h3: "\<forall>k<1. probe_round one_row_fetch None 0 1000 4
      (max 1 (4 div LOCAL_THREADS_RATIO example_config)) new_task k = Retry"
    by simp
  have h4: "one_row_fetch 1 0 = (Some [[TInt 5, TStr ''x'']], NORMAL)"
    by (simp add: one_row_fetch_def)
  have h5: "(case None :: map_func option of Some f \<Rightarrow> f 1 (Some [[TInt 5, TStr ''x'']])
      | None \<Rightarrow> Inr (Some [[TInt 5, TStr ''x'']])) = Inr (Some [[TInt 5, TStr ''x'']])"
    by simp
  have h6: "[[TInt 5, TStr ''x'']] \<noteq> []"
    and h7: "hd [[TInt 5, TStr ''x'']] = TInt 5 # [TStr ''x'']"
    and h8: "last [[TInt 5, TStr ''x'']] = TInt 5 # [TStr ''x'']"
    by simp_all
  from zero_delta_is_rejected [OF h1 h2 h3 h4 h5 h6 h7 h8] h1 h2 r0 h4
  show ?thesis
    by (simp add: new_task_def)
qed

text \<open>
  C4, on the task that \<^verbatim>\<open>fetch_all_funding_rate_history\<close> builds. The fetch fails, the
  wrapper answers \<^verbatim>\<open>(None, DataFlag.ERROR)\<close>, and the loop hands \<^verbatim>\<open>None\<close> to
  \<^verbatim>\<open>map_with_validation\<close> before it looks at the flag: the first round raises
  \<^verbatim>\<open>ValueError\<close>, and no further attempt is made. The mapper class is in any state
  \<open>cls\<close>, validated or not (\<^verbatim>\<open>FundingRateHistoryMapper\<close> as declared is one), and the
  pages the mapping function is given are those of the fetch.
\<close>

theorem failed_probe_with_mapper_raises:
  "initialize example_config since until thread_count (\<lambda>k since. (None, ERROR))
     (Some (map_func_of FundingRateHistoryMapper mapping (\<lambda>k. None))) new_task
   = Some (Inl (ValueError ''Data has a bad type'', new_task)) \<and>
   initialize example_config since until thread_count (\<lambda>k since. (None, ERROR))
     (Some (map_func_of cls mapping (\<lambda>k. None))) new_task
   = Some (Inl (ValueError ''Data has a bad type'', new_task))"
proof -
  have "probe_round (\<lambda>k since. (None, ERROR))
      (Some (map_func_of c mapping (\<lambda>k. None))) since until w1 w2 new_task 0
      = Raise (ValueError ''Data has a bad type'')" for w1 w2 c
    by (simp add: probe_round_def map_func_of_def map_with_validation_def)
  then show ?thesis
    by (simp add: initialize_def example_config_def probe_loop.simps)
qed

text \<open>
  The mapping function keeps the state of its class from one round to the next: a page
  whose row is too short is refused in the first round, and accepted in the second
  when the page of the first round has passed the validation.
\<close>

lemma map_func_of_keeps_validated:
  "map_func_of FundingRateHistoryMapper Inr (\<lambda>k. Some [[TInt 1, TInt 2]]) 0 (Some [[TInt 1]])
     = Inl (DataFormatValidationError 1 2) \<and>
   map_func_of FundingRateHistoryMapper Inr (\<lambda>k. Some [[TInt 1, TInt 2]]) 1 (Some [[TInt 1]])
     = Inr (Some [[TInt 1]])"
  by (simp add: map_func_of_def map_with_validation_def validate_def
      FundingRateHistoryMapper_def)

text \<open>Without a mapping function the same fetch exhausts the three attempts.\<close>

lemma initialize_exhausted_example:
  "initialize example_config 0 1000 4 (\<lambda>k since. (None, ERROR)) None new_task
   = Some (Inl (RuntimeError_exhausted, new_task))"
proof -
  have "\<forall>k<3. probe_round (\<lambda>k since. (None, ERROR)) None 0 1000 4
      (max 1 (4 div LOCAL_THREADS_RATIO example_config)) new_task k = Retry"
    by (simp add: probe_round_def)
  moreover have "LOCAL_THREADS_RATIO example_config \<noteq> 0"
    "MAX_ATTEMPT_TIMES example_config = int 3"
    by (simp_all add: example_config_def)
  ultimately show ?thesis
    by (intro initialize_exhausted) simp_all
qed

section \<open>Properties of the fetch engine\<close>

text \<open>
  C1, on a plan of one timestamp with \<^verbatim>\<open>max_attempts = 1\<close> and a fetch that fails on
  the first call and returns \<^verbatim>\<open>NORMAL\<close> with one row on the second. Under
  \<open>lost_schedule\<close> \<^verbatim>\<open>complete\<close> returns the empty list: the row of the second attempt
  is still in the local queue when the last thread has been joined.
\<close>

theorem retried_rows_are_lost:
  "fails_once 7 0 = (None, ERROR) \<and> fails_once 7 1 = (Some [''row''], NORMAL) \<and>
   outcome_of fails_once lost_schedule 1 (plan_of [7] 1 1)
     = Some (MReturned [], [7, 7], True)"
  by code_simp

text \<open>Under \<open>kept_schedule\<close> the same call returns the row.\<close>

lemma retried_rows_are_kept:
  "outcome_of fails_once kept_schedule 1 (plan_of [7] 1 1)
     = Some (MReturned [''row''], [7, 7], True)"
  by code_simp

text \<open>
  A plan of one timestamp whose fetch always fails, with \<^verbatim>\<open>max_attempts = 1\<close>. The
  worker that finds \<^verbatim>\<open>attempt_times = 2\<close> sets the stop event and the message and
  fetches all the same: when \<^verbatim>\<open>complete\<close> raises, the fetch collaborator has been
  called three times for the timestamp.
\<close>

lemma exhausted_unit_is_fetched_again:
  "outcome_of always_fails exceeded_schedule 1 (plan_of [7] 1 1)
     = Some (MRaised (RuntimeError_exceeded 1 7), [7, 7, 7], True)"
  by code_simp

text \<open>
  Under \<open>hanging_schedule\<close> no thread can take a step while the main thread still waits
  in \<^verbatim>\<open>_online_queue.join()\<close>: both workers have left their loops on the stop event and
  the unit put back last is never taken.
\<close>

lemma exhausted_unit_can_hang:
  "outcome_of always_fails hanging_schedule 1 (plan_of [7] 1 1)
     = Some (MJoinOnlineQueue, [7, 7, 7], True)"
  by code_simp

subsection \<open>An invariant of the engine\<close>

lemma list_all_update: "list_all P xs \<Longrightarrow> P v \<Longrightarrow> list_all P (xs[i := v])"
  using set_update_subset_insert [of xs i v] by (auto simp: list_all_iff)

lemma in_set_update_other:
  assumes "x \<in> set xs" and "xs ! i \<noteq> x"
  shows "x \<in> set (xs[i := v])"
proof -
  from assms(1) obtain j where j: "j < length xs" "xs ! j = x"
    by (auto simp: in_set_conv_nth)
  with assms(2) have "j \<noteq> i" by auto
  with j have "(xs[i := v]) ! j = x" "j < length (xs[i := v])" by simp_all
  then show ?thesis
    by (auto simp: in_set_conv_nth)
qed

lemma list_all_nth: "list_all P xs \<Longrightarrow> i < length xs \<Longrightarrow> P (xs ! i)"
  by (simp add: list_all_iff)

lemma calls_of_unchanged:
  "fetch_calls st' = fetch_calls st \<Longrightarrow> calls_of st' = calls_of st"
  by (simp add: calls_of_def fun_eq_iff)

lemma counted_unchanged:
  assumes "calls_of st' = calls_of st"
  shows "online_pc_counted st' = online_pc_counted st"
    and "local_pc_counted st' = local_pc_counted st"
    and "unit_counted st' = unit_counted st"
    and "result_counted st' = result_counted st"
proof -
  show "online_pc_counted st' = online_pc_counted st"
    by (rule ext) (simp add: online_pc_counted_def assms split: online_pc.splits)
  show "local_pc_counted st' = local_pc_counted st"
    by (rule ext) (simp add: local_pc_counted_def assms split: local_pc.splits)
  show "unit_counted st' = unit_counted st"
    by (rule ext) (simp add: unit_counted_def assms split: option.splits)
  show "result_counted st' = result_counted st"
    by (rule ext) (simp add: result_counted_def assms split: option.splits)
qed

lemma calls_of_fetch:
  "calls_of (st\<lparr>fetch_calls := fetch_calls st @ [ts]\<rparr>) ts' =
     (if ts' = ts then calls_of st ts' + 1 else calls_of st ts')"
  by (simp add: calls_of_def)

lemma counted_mono:
  assumes "\<And>ts. calls_of st ts \<le> calls_of st' ts"
  shows "online_pc_counted st pc \<Longrightarrow> online_pc_counted st' pc"
    and "local_pc_counted st lpc \<Longrightarrow> local_pc_counted st' lpc"
    and "unit_counted st u \<Longrightarrow> unit_counted st' u"
    and "result_counted st r \<Longrightarrow> result_counted st' r"
  using assms
  by (auto simp: online_pc_counted_def local_pc_counted_def unit_counted_def
      result_counted_def split: online_pc.splits local_pc.splits option.splits
      intro: order_trans)

lemma main_after_joins_running:
  assumes "main_after_joins st" and "i < length (online_threads st)"
    and "online_threads st ! i \<noteq> OExit"
  shows "main_thread st \<noteq> MFinish" and "\<forall>rows. main_thread st \<noteq> MReturned rows"
    and "\<forall>e. main_thread st \<noteq> MRaised e"
  using assms list_all_nth [of "\<lambda>pc. pc = OExit" "online_threads st" i]
  by (auto simp: main_after_joins_def split: main_pc.splits)

lemma main_after_joins_online:
  assumes "main_after_joins st" and "i < length (online_threads st)"
    and "online_threads st ! i \<noteq> OExit"
    and "main_thread st' = main_thread st"
  shows "main_after_joins st'"
  using main_after_joins_running [OF assms(1-3)] assms(4)
  by (cases "main_thread st") (simp_all add: main_after_joins_def)

lemma attempts_countedI:
  assumes "attempts_counted st"
    and "\<And>ts. calls_of st ts \<le> calls_of st' ts"
    and "\<And>u. u \<in> set (online_queue st') \<Longrightarrow> u \<in> set (online_queue st) \<or> unit_counted st' u"
    and "\<And>pc. pc \<in> set (online_threads st') \<Longrightarrow>
           pc \<in> set (online_threads st) \<or> online_pc_counted st' pc"
    and "\<And>r. r \<in> set (local_queue st') \<Longrightarrow> r \<in> set (local_queue st) \<or> result_counted st' r"
    and "\<And>pc. pc \<in> set (local_threads st') \<Longrightarrow>
           pc \<in> set (local_threads st) \<or> local_pc_counted st' pc"
  shows "attempts_counted st'"
proof -
  have "unit_counted st' u" if "u \<in> set (online_queue st')" for u
    using assms(3) [OF that] assms(1) counted_mono(3) [of st st' u, OF assms(2)]
    by (auto simp: attempts_counted_def list_all_iff)
  moreover have "online_pc_counted st' pc" if "pc \<in> set (online_threads st')" for pc
    using assms(4) [OF that] assms(1) counted_mono(1) [of st st' pc, OF assms(2)]
    by (auto simp: attempts_counted_def list_all_iff)
  moreover have "result_counted st' r" if "r \<in> set (local_queue st')" for r
    using assms(5) [OF that] assms(1) counted_mono(4) [of st st' r, OF assms(2)]
    by (auto simp: attempts_counted_def list_all_iff)
  moreover have "local_pc_counted st' pc" if "pc \<in> set (local_threads st')" for pc
    using assms(6) [OF that] assms(1) counted_mono(2) [of st st' pc, OF assms(2)]
    by (auto simp: attempts_counted_def list_all_iff)
  ultimately show ?thesis
    by (simp add: attempts_counted_def list_all_iff)
qed

lemma in_set_updateD: "x \<in> set (xs[i := v]) \<Longrightarrow> x \<in> set xs \<or> x = v"
  using set_update_subset_insert [of xs i v] by auto

lemma online_step_attempts:
  assumes "attempts_counted st" and "i < length (online_threads st)"
    and "online_step fetch i (online_threads st ! i) st = Some st'"
  shows "attempts_counted st'"
proof -
  have here: "online_pc_counted st (online_threads st ! i)"
    using assms(1,2) by (simp add: attempts_counted_def list_all_nth)
  show ?thesis
  proof (cases "online_threads st ! i")
    case OTop
    with assms(3) have st': "st' = st\<lparr>online_threads := (online_threads st)
        [i := (if stop_event st then OExit else OGet)]\<rparr>"
      by (simp add: online_step_def)
    show ?thesis
      by (rule attempts_countedI [OF assms(1)])
        (auto simp: st' calls_of_def online_pc_counted_def dest!: in_set_updateD)
  next
    case OGet
    with assms(3) obtain item queue where q: "online_queue st = item # queue"
      and st': "st' = st\<lparr>online_queue := queue, online_threads := (online_threads st)
          [i := (case item of None \<Rightarrow> OSentinel | Some (ts, a) \<Rightarrow> OCheck ts a)]\<rparr>"
      by (auto simp: online_step_def split: list.splits)
    have item: "unit_counted st item"
      using assms(1) q by (simp add: attempts_counted_def)
    show ?thesis
    proof (rule attempts_countedI [OF assms(1)])
      fix pc assume "pc \<in> set (online_threads st')"
      then have "pc \<in> set (online_threads st) \<or>
          pc = (case item of None \<Rightarrow> OSentinel | Some (ts, a) \<Rightarrow> OCheck ts a)"
        by (auto simp: st' dest!: in_set_updateD)
      moreover have "online_pc_counted st'
          (case item of None \<Rightarrow> OSentinel | Some (ts, a) \<Rightarrow> OCheck ts a)"
        using item
        by (auto simp: st' unit_counted_def online_pc_counted_def calls_of_def
            split: option.splits)
      ultimately show "pc \<in> set (online_threads st) \<or> online_pc_counted st' pc"
        by auto
    qed (auto simp: st' q calls_of_def)
  next
    case (OCheck ts a)
    with assms(3) obtain st1 where st': "st' = st1\<lparr>online_threads := (online_threads st)
        [i := OFetch ts a]\<rparr>" and same: "fetch_calls st1 = fetch_calls st"
        "online_queue st1 = online_queue st" "local_queue st1 = local_queue st"
        "local_threads st1 = local_threads st"
      by (auto simp: online_step_def split: if_splits)
    show ?thesis
    proof (rule attempts_countedI [OF assms(1)])
      fix pc assume "pc \<in> set (online_threads st')"
      then have "pc \<in> set (online_threads st) \<or> pc = OFetch ts a"
        by (auto simp: st' dest!: in_set_updateD)
      moreover have "online_pc_counted st' (OFetch ts a)"
        using here OCheck by (simp add: st' same online_pc_counted_def calls_of_def)
      ultimately show "pc \<in> set (online_threads st) \<or> online_pc_counted st' pc"
        by auto
    qed (auto simp: st' same calls_of_def)
  next
    case (OFetch ts a)
    obtain d f where "fetch ts (count_list (fetch_calls st) ts) = (d, f)"
      by (cases "fetch ts (count_list (fetch_calls st) ts)")
    with OFetch assms(3) have st': "st' = st\<lparr>fetch_calls := fetch_calls st @ [ts],
        online_threads := (online_threads st)[i := OPut ts d f a]\<rparr>"
      by (simp add: online_step_def)
    show ?thesis
    proof (rule attempts_countedI [OF assms(1)])
      fix pc assume "pc \<in> set (online_threads st')"
      then have "pc \<in> set (online_threads st) \<or> pc = OPut ts d f a"
        by (auto simp: st' dest!: in_set_updateD)
      moreover have "online_pc_counted st' (OPut ts d f a)"
        using here OFetch by (simp add: st' online_pc_counted_def calls_of_def)
      ultimately show "pc \<in> set (online_threads st) \<or> online_pc_counted st' pc"
        by auto
    qed (auto simp: st' calls_of_def)
  next
    case (OPut ts d f a)
    with assms(3) have st': "st' = st\<lparr>
        local_queue := local_queue st @ [Some (ts, d, f, a + 1)],
        local_unfinished := local_unfinished st + 1,
        online_threads := (online_threads st)[i := ODone]\<rparr>"
      by (simp add: online_step_def)
    show ?thesis
    proof (rule attempts_countedI [OF assms(1)])
      fix r assume "r \<in> set (local_queue st')"
      then have "r \<in> set (local_queue st) \<or> r = Some (ts, d, f, a + 1)"
        by (auto simp: st')
      moreover have "result_counted st' (Some (ts, d, f, a + 1))"
        using here OPut by (simp add: st' online_pc_counted_def result_counted_def calls_of_def)
      ultimately show "r \<in> set (local_queue st) \<or> result_counted st' r"
        by auto
    qed (auto simp: st' calls_of_def online_pc_counted_def dest!: in_set_updateD)
  next
    case ODone
    with assms(3) have st': "st' = st\<lparr>online_unfinished := online_unfinished st - 1,
        online_threads := (online_threads st)[i := OTop]\<rparr>"
      by (simp add: online_step_def)
    show ?thesis
      by (rule attempts_countedI [OF assms(1)])
        (auto simp: st' calls_of_def online_pc_counted_def dest!: in_set_updateD)
  next
    case OSentinel
    with assms(3) have st': "st' = st\<lparr>online_unfinished := online_unfinished st - 1,
        online_threads := (online_threads st)[i := OExit]\<rparr>"
      by (simp add: online_step_def)
    show ?thesis
      by (rule attempts_countedI [OF assms(1)])
        (auto simp: st' calls_of_def online_pc_counted_def dest!: in_set_updateD)
  next
    case OExit
    with assms(3) show ?thesis
      by (simp add: online_step_def)
  qed
qed

lemma exceeded_is_fetched_kept:
  assumes "exceeded_is_fetched st"
    and "abnormal_termination_info st' = abnormal_termination_info st"
    and "max_attempts st' = max_attempts st"
    and "\<And>ts. calls_of st ts \<le> calls_of st' ts"
    and "\<And>ts n. OFetch ts n \<in> set (online_threads st) \<Longrightarrow>
           OFetch ts n \<in> set (online_threads st')"
  shows "exceeded_is_fetched st'"
proof (cases "abnormal_termination_info st")
  case None
  with assms(2) show ?thesis
    by (simp add: exceeded_is_fetched_def)
next
  case (Some p)
  obtain n ts where p: "p = (n, ts)" by (cases p)
  from assms(1) Some p have m: "max_attempts st \<le> n"
    and f: "n + 2 \<le> calls_of st ts \<or> OFetch ts (n + 1) \<in> set (online_threads st)"
    by (simp_all add: exceeded_is_fetched_def)
  from f have "n + 2 \<le> calls_of st' ts \<or> OFetch ts (n + 1) \<in> set (online_threads st')"
    using assms(4) [of ts] assms(5) [of ts "n + 1"] by auto
  with m Some p assms(2,3) show ?thesis
    by (simp add: exceeded_is_fetched_def)
qed

lemma online_step_exceeded:
  assumes "attempts_counted st" and "exceeded_is_fetched st"
    and "i < length (online_threads st)"
    and "online_step fetch i (online_threads st ! i) st = Some st'"
  shows "exceeded_is_fetched st' \<and> max_attempts st' = max_attempts st"
proof -
  have here: "online_pc_counted st (online_threads st ! i)"
    using assms(1,3) by (simp add: attempts_counted_def list_all_nth)
  have other: "OFetch ts n \<in> set ((online_threads st)[i := v])"
    if "OFetch ts n \<in> set (online_threads st)" and "online_threads st ! i \<noteq> OFetch ts n"
    for ts n v
    using that by (rule in_set_update_other)
  show ?thesis
  proof (cases "online_threads st ! i")
    case OTop
    with assms(4) have st': "st' = st\<lparr>online_threads := (online_threads st)
        [i := (if stop_event st then OExit else OGet)]\<rparr>"
      by (simp add: online_step_def)
    have "exceeded_is_fetched st'"
      by (rule exceeded_is_fetched_kept [OF assms(2)])
        (simp_all add: st' calls_of_def other OTop)
    then show ?thesis by (simp add: st')
  next
    case OGet
    with assms(4) obtain item queue where
      st': "st' = st\<lparr>online_queue := queue, online_threads := (online_threads st)
          [i := (case item of None \<Rightarrow> OSentinel | Some (ts, a) \<Rightarrow> OCheck ts a)]\<rparr>"
      by (auto simp: online_step_def split: list.splits)
    have "exceeded_is_fetched st'"
      by (rule exceeded_is_fetched_kept [OF assms(2)])
        (simp_all add: st' calls_of_def other OGet)
    then show ?thesis by (simp add: st')
  next
    case (OCheck ts a)
    show ?thesis
    proof (cases "a > max_attempts st \<and> abnormal_termination_info st = None")
      case True
      with OCheck assms(4) have st': "st' = st\<lparr>stop_event := True,
          abnormal_termination_info := Some (a - 1, ts),
          online_threads := (online_threads st)[i := OFetch ts a]\<rparr>"
        by (simp add: online_step_def)
      have "OFetch ts a \<in> set ((online_threads st)[i := OFetch ts a])"
        using assms(3) by (simp add: set_update_memI)
      with True show ?thesis
        by (simp add: st' exceeded_is_fetched_def)
    next
      case False
      with OCheck assms(4) obtain st1 where
        st': "st' = st1\<lparr>online_threads := (online_threads st)[i := OFetch ts a]\<rparr>"
        and same: "fetch_calls st1 = fetch_calls st" "max_attempts st1 = max_attempts st"
          "abnormal_termination_info st1 = abnormal_termination_info st"
        by (auto simp: online_step_def split: if_splits)
      have "exceeded_is_fetched st'"
        by (rule exceeded_is_fetched_kept [OF assms(2)])
          (simp_all add: st' same calls_of_def other OCheck)
      then show ?thesis by (simp add: st' same)
    qed
  next
    case (OFetch ts a)
    obtain d f where "fetch ts (count_list (fetch_calls st) ts) = (d, f)"
      by (cases "fetch ts (count_list (fetch_calls st) ts)")
    with OFetch assms(4) have st': "st' = st\<lparr>fetch_calls := fetch_calls st @ [ts],
        online_threads := (online_threads st)[i := OPut ts d f a]\<rparr>"
      by (simp add: online_step_def)
    have calls: "calls_of st' ts = calls_of st ts + 1"
      and mono: "calls_of st ts' \<le> calls_of st' ts'" for ts'
      by (simp_all add: st' calls_of_def)
    have "exceeded_is_fetched st'"
    proof (cases "abnormal_termination_info st")
      case None
      then show ?thesis by (simp add: st' exceeded_is_fetched_def)
    next
      case (Some p)
      obtain n ts0 where p: "p = (n, ts0)" by (cases p)
      from assms(2) Some p have m: "max_attempts st \<le> n"
        and f: "n + 2 \<le> calls_of st ts0 \<or> OFetch ts0 (n + 1) \<in> set (online_threads st)"
        by (simp_all add: exceeded_is_fetched_def)
      have "n + 2 \<le> calls_of st' ts0 \<or> OFetch ts0 (n + 1) \<in> set (online_threads st')"
      proof (cases "OFetch ts0 (n + 1) = OFetch ts a")
        case True
        with here OFetch have "n + 1 \<le> calls_of st ts0"
          by (simp add: online_pc_counted_def)
        with True calls show ?thesis by simp
      next
        case False
        from f show ?thesis
        proof
          assume "n + 2 \<le> calls_of st ts0"
          with mono [of ts0] show ?thesis by simp
        next
          assume "OFetch ts0 (n + 1) \<in> set (online_threads st)"
          moreover from False OFetch have "online_threads st ! i \<noteq> OFetch ts0 (n + 1)"
            by auto
          ultimately have "OFetch ts0 (n + 1) \<in> set ((online_threads st)[i := OPut ts d f a])"
            by (rule other)
          then have "OFetch ts0 (n + 1) \<in> set (online_threads st')"
            by (simp add: st')
          then show ?thesis by simp
        qed
      qed
      with m Some p show ?thesis
        by (simp add: st' exceeded_is_fetched_def)
    qed
    then show ?thesis by (simp add: st')
  next
    case (OPut ts d f a)
    with assms(4) have st': "st' = st\<lparr>
        local_queue := local_queue st @ [Some (ts, d, f, a + 1)],
        local_unfinished := local_unfinished st + 1,
        online_threads := (online_threads st)[i := ODone]\<rparr>"
      by (simp add: online_step_def)
    have "exceeded_is_fetched st'"
      by (rule exceeded_is_fetched_kept [OF assms(2)])
        (simp_all add: st' calls_of_def other OPut)
    then show ?thesis by (simp add: st')
  next
    case ODone
    with assms(4) have st': "st' = st\<lparr>online_unfinished := online_unfinished st - 1,
        online_threads := (online_threads st)[i := OTop]\<rparr>"
      by (simp add: online_step_def)
    have "exceeded_is_fetched st'"
      by (rule exceeded_is_fetched_kept [OF assms(2)])
        (simp_all add: st' calls_of_def other ODone)
    then show ?thesis by (simp add: st')
  next
    case OSentinel
    with assms(4) have st': "st' = st\<lparr>online_unfinished := online_unfinished st - 1,
        online_threads := (online_threads st)[i := OExit]\<rparr>"
      by (simp add: online_step_def)
    have "exceeded_is_fetched st'"
      by (rule exceeded_is_fetched_kept [OF assms(2)])
        (simp_all add: st' calls_of_def other OSentinel)
    then show ?thesis by (simp add: st')
  next
    case OExit
    with assms(4) show ?thesis
      by (simp add: online_step_def)
  qed
qed

lemma online_step_main:
  assumes "main_after_joins st" and "i < length (online_threads st)"
    and "online_step fetch i (online_threads st ! i) st = Some st'"
  shows "main_after_joins st'"
proof -
  have running: "online_threads st ! i \<noteq> OExit"
    using assms(3) by (auto simp: online_step_def)
  have "main_thread st' = main_thread st"
    using assms(3)
    by (cases "online_threads st ! i")
      (auto simp: online_step_def split: list.splits prod.splits if_splits)
  with assms(1,2) running show ?thesis
    by (rule main_after_joins_online)
qed

lemma local_step_same:
  assumes "local_step j pc st = Some st'"
  shows "fetch_calls st' = fetch_calls st" and "online_threads st' = online_threads st"
    and "abnormal_termination_info st' = abnormal_termination_info st"
    and "max_attempts st' = max_attempts st" and "main_thread st' = main_thread st"
  using assms
  by (cases pc; auto simp: local_step_def split: list.splits option.splits if_splits)+

lemma local_step_attempts:
  assumes "attempts_counted st" and "j < length (local_threads st)"
    and "local_step j (local_threads st ! j) st = Some st'"
  shows "attempts_counted st'"
proof -
  have here: "local_pc_counted st (local_threads st ! j)"
    using assms(1,2) by (simp add: attempts_counted_def list_all_nth)
  show ?thesis
  proof (cases "local_threads st ! j")
    case LTop
    with assms(3) have st': "st' = st\<lparr>local_threads := (local_threads st)
        [j := (if stop_event st then LExit else LGet)]\<rparr>"
      by (simp add: local_step_def)
    show ?thesis
      by (rule attempts_countedI [OF assms(1)])
        (auto simp: st' calls_of_def local_pc_counted_def dest!: in_set_updateD)
  next
    case LGet
    with assms(3) obtain item queue where q: "local_queue st = item # queue"
      and st': "st' = st\<lparr>local_queue := queue, local_threads := (local_threads st)
          [j := (case item of None \<Rightarrow> LSentinel
                 | Some (ts, d, f, a) \<Rightarrow> LHandle ts d f a)]\<rparr>"
      by (auto simp: local_step_def split: list.splits)
    have item: "result_counted st item"
      using assms(1) q by (simp add: attempts_counted_def)
    show ?thesis
    proof (rule attempts_countedI [OF assms(1)])
      fix pc assume "pc \<in> set (local_threads st')"
      then have "pc \<in> set (local_threads st) \<or>
          pc = (case item of None \<Rightarrow> LSentinel | Some (ts, d, f, a) \<Rightarrow> LHandle ts d f a)"
        by (auto simp: st' dest!: in_set_updateD)
      moreover have "local_pc_counted st'
          (case item of None \<Rightarrow> LSentinel | Some (ts, d, f, a) \<Rightarrow> LHandle ts d f a)"
        using item
        by (auto simp: st' result_counted_def local_pc_counted_def calls_of_def
            split: option.splits)
      ultimately show "pc \<in> set (local_threads st) \<or> local_pc_counted st' pc"
        by auto
    qed (auto simp: st' q calls_of_def)
  next
    case (LHandle ts d f a)
    with assms(3) obtain st1 where
      st': "st' = st1\<lparr>local_threads := (local_threads st)[j := LDone]\<rparr>"
      and same: "fetch_calls st1 = fetch_calls st" "local_queue st1 = local_queue st"
        "online_threads st1 = online_threads st"
      and q: "online_queue st1 = online_queue st \<or>
        online_queue st1 = online_queue st @ [Some (ts, a)]"
      by (auto simp: local_step_def split: if_splits option.splits)
    show ?thesis
    proof (rule attempts_countedI [OF assms(1)])
      fix u assume "u \<in> set (online_queue st')"
      with q have "u \<in> set (online_queue st) \<or> u = Some (ts, a)"
        by (auto simp: st')
      moreover have "unit_counted st' (Some (ts, a))"
        using here LHandle
        by (simp add: st' same local_pc_counted_def unit_counted_def calls_of_def)
      ultimately show "u \<in> set (online_queue st) \<or> unit_counted st' u"
        by auto
    qed (auto simp: st' same calls_of_def local_pc_counted_def dest!: in_set_updateD)
  next
    case LDone
    with assms(3) have st': "st' = st\<lparr>local_unfinished := local_unfinished st - 1,
        local_threads := (local_threads st)[j := LTop]\<rparr>"
      by (simp add: local_step_def)
    show ?thesis
      by (rule attempts_countedI [OF assms(1)])
        (auto simp: st' calls_of_def local_pc_counted_def dest!: in_set_updateD)
  next
    case LSentinel
    with assms(3) have st': "st' = st\<lparr>local_unfinished := local_unfinished st - 1,
        local_threads := (local_threads st)[j := LExit]\<rparr>"
      by (simp add: local_step_def)
    show ?thesis
      by (rule attempts_countedI [OF assms(1)])
        (auto simp: st' calls_of_def local_pc_counted_def dest!: in_set_updateD)
  next
    case LExit
    with assms(3) show ?thesis
      by (simp add: local_step_def)
  qed
qed

lemma main_step_same:
  assumes "main_step st = Some st'"
  shows "fetch_calls st' = fetch_calls st" and "online_threads st' = online_threads st"
    and "abnormal_termination_info st' = abnormal_termination_info st"
    and "max_attempts st' = max_attempts st"
    and "local_threads st' = local_threads st"
    and "online_queue st' = online_queue st \<or> online_queue st' = online_queue st @ [None]"
    and "local_queue st' = local_queue st \<or> local_queue st' = local_queue st @ [None]"
  using assms
  by (cases "main_thread st";
      auto simp: main_step_def split: option.splits if_splits prod.splits)+

lemma main_step_main:
  assumes "main_after_joins st" and "main_step st = Some st'"
  shows "main_after_joins st'"
  using assms
  by (cases "main_thread st")
    (auto simp: main_step_def main_after_joins_def split: option.splits if_splits prod.splits)

lemma thread_step_invariant:
  assumes "engine_invariant st" and "thread_step fetch t st = Some st'"
  shows "engine_invariant st' \<and> max_attempts st' = max_attempts st"
proof (cases t)
  case Main
  with assms(2) have step: "main_step st = Some st'"
    by (simp add: thread_step_def)
  note same = main_step_same [OF step]
  have "attempts_counted st'"
  proof (rule attempts_countedI)
    show "attempts_counted st" using assms(1) by (simp add: engine_invariant_def)
    show "u \<in> set (online_queue st) \<or> unit_counted st' u" if "u \<in> set (online_queue st')" for u
      using that same(6) by (auto simp: unit_counted_def)
    show "r \<in> set (local_queue st) \<or> result_counted st' r" if "r \<in> set (local_queue st')" for r
      using that same(7) by (auto simp: result_counted_def)
  qed (simp_all add: same calls_of_def)
  moreover have "exceeded_is_fetched st'"
    by (rule exceeded_is_fetched_kept [of st])
      (use assms(1) in \<open>simp_all add: same calls_of_def engine_invariant_def\<close>)
  moreover have "main_after_joins st'"
    using assms(1) step by (auto simp: engine_invariant_def intro: main_step_main)
  ultimately show ?thesis
    by (simp add: engine_invariant_def same)
next
  case (Online i)
  with assms(2) have i: "i < length (online_threads st)"
    and step: "online_step fetch i (online_threads st ! i) st = Some st'"
    by (simp_all add: thread_step_def split: if_splits)
  from assms(1) have "attempts_counted st" "exceeded_is_fetched st" "main_after_joins st"
    by (simp_all add: engine_invariant_def)
  with i step online_step_attempts [OF _ i step] online_step_exceeded [OF _ _ i step]
    online_step_main [OF _ i step]
  show ?thesis
    by (simp add: engine_invariant_def)
next
  case (Local j)
  with assms(2) have j: "j < length (local_threads st)"
    and step: "local_step j (local_threads st ! j) st = Some st'"
    by (simp_all add: thread_step_def split: if_splits)
  note same = local_step_same [OF step]
  have "attempts_counted st'"
    using assms(1) local_step_attempts [OF _ j step] by (simp add: engine_invariant_def)
  moreover have "exceeded_is_fetched st'"
    by (rule exceeded_is_fetched_kept [of st])
      (use assms(1) in \<open>simp_all add: same calls_of_def engine_invariant_def\<close>)
  moreover have "main_after_joins st' = main_after_joins st"
    unfolding main_after_joins_def same ..
  then have "main_after_joins st'"
    using assms(1) by (simp add: engine_invariant_def)
  ultimately show ?thesis
    by (simp add: engine_invariant_def same)
qed

lemma run_invariant:
  "engine_invariant st \<Longrightarrow> run fetch schedule st = Some st' \<Longrightarrow>
   engine_invariant st' \<and> max_attempts st' = max_attempts st"
proof (induction schedule arbitrary: st)
  case Nil
  then show ?case by simp
next
  case (Cons t schedule)
  from Cons.prems(2) obtain st1 where step: "thread_step fetch t st = Some st1"
    and rest: "run fetch schedule st1 = Some st'"
    by (auto split: option.splits)
  from thread_step_invariant [OF Cons.prems(1) step]
  have "engine_invariant st1" and "max_attempts st1 = max_attempts st"
    by simp_all
  with Cons.IH [OF _ rest] show ?case
    by simp
qed

lemma started_invariant:
  assumes "started m t = Inr st"
  shows "engine_invariant st \<and> max_attempts st = m"
  using assms
  by (auto simp: started_def engine_invariant_def attempts_counted_def exceeded_is_fetched_def
      main_after_joins_def unit_counted_def online_pc_counted_def local_pc_counted_def
      calls_of_def list_all_iff split: option.splits)

text \<open>
  C2, in every execution. Whenever \<^verbatim>\<open>complete\<close> raises, its error is the message of
  the error slot, the number in the message is at least \<^verbatim>\<open>max_attempts\<close>, and the fetch
  collaborator has been called at least \<^verbatim>\<open>max_attempts + 2\<close> times with the timestamp of
  the message: the worker that writes the message goes on to fetch. So the fetch is
  never invoked exactly \<^verbatim>\<open>max_attempts + 1\<close> times for that unit.
\<close>

theorem exceeded_after_extra_fetch:
  assumes "started m t = Inr st" and "run fetch schedule st = Some st'"
    and "main_thread st' = MRaised e"
  shows "\<exists>n ts. e = RuntimeError_exceeded n ts \<and> m \<le> n \<and>
           m + 2 \<le> int (count_list (fetch_calls st') ts)"
proof -
  from started_invariant [OF assms(1)] run_invariant [OF _ assms(2)]
  have inv: "engine_invariant st'" and m: "max_attempts st' = m"
    by simp_all
  from inv assms(3) have exits: "list_all (\<lambda>pc. pc = OExit) (online_threads st')"
    and "case abnormal_termination_info st' of None \<Rightarrow> False
          | Some (n, ts) \<Rightarrow> e = RuntimeError_exceeded n ts"
    by (simp_all add: engine_invariant_def main_after_joins_def)
  then obtain n ts where info: "abnormal_termination_info st' = Some (n, ts)"
    and e: "e = RuntimeError_exceeded n ts"
    by (auto split: option.splits)
  from inv info have "max_attempts st' \<le> n"
    and "n + 2 \<le> calls_of st' ts \<or> OFetch ts (n + 1) \<in> set (online_threads st')"
    by (simp_all add: engine_invariant_def exceeded_is_fetched_def)
  moreover have "OFetch ts (n + 1) \<notin> set (online_threads st')"
    using exits by (auto simp: list_all_iff)
  ultimately have "m \<le> n" and "n + 2 \<le> calls_of st' ts"
    using m by simp_all
  with e show ?thesis
    by (auto simp: calls_of_def)
qed

theorem exceeded_after_extra_fetch_witness:
  "started 1 (plan_of [7] 1 1) = Inr single_unit_start \<and>
   run always_fails exceeded_schedule single_unit_start = Some exceeded_end \<and>
   main_thread exceeded_end = MRaised (RuntimeError_exceeded 1 7) \<and>
   (1::int) + 2 \<le> int (count_list (fetch_calls exceeded_end) 7)"
proof -
  have h1: "started 1 (plan_of [7] 1 1) = Inr single_unit_start"
    by (simp add: started_def plan_of_def single_unit_start_def)
  have h2: "run always_fails exceeded_schedule single_unit_start = Some exceeded_end"
    by code_simp
  have h3: "main_thread exceeded_end = MRaised (RuntimeError_exceeded 1 7)"
    by (simp add: exceeded_end_def)
  from exceeded_after_extra_fetch [OF h1 h2 h3]
  have "(1::int) + 2 \<le> int (count_list (fetch_calls exceeded_end) 7)"
    by auto
  with h1 h2 h3 show ?thesis
    by simp
qed

end
